theory Spec2Isabelle
  imports Complex_Main "HOL-Library.Word" "HOL-Library.Multiset" "HOL-Library.Signed_Division"
begin

section \<open>Bytes, faults and array access\<close>

text \<open>
  The imaging core works on \<^verbatim>\<open>unsigned char\<close> buffers indexed by C \<^verbatim>\<open>int\<close>s.
  Bytes are 8-bit words; indices are mathematical integers (every index the code forms on
  an in-bounds range stays far below \<open>2^31\<close>, so \<^verbatim>\<open>int\<close> overflow is not modelled).
  A read or write outside the buffer is undefined behaviour in C; the model makes it the
  fault \<open>Out_Of_Bounds\<close>. \<open>Exit_Failure\<close> is \<^verbatim>\<open>exit(EXIT_FAILURE)\<close>: it carries the
  text written to \<^verbatim>\<open>stderr\<close> and the frame's pixel data as they are when the process
  exits. \<open>Null_Pointer\<close> is the use of a null frame pointer, \<open>Division_By_Zero\<close> the mean of
  an empty sample.
\<close>

type_synonym byte = "8 word"

datatype error = Out_Of_Bounds | Null_Pointer | Division_By_Zero | Exit_Failure string "byte list"

text \<open>\<open>rd a i\<close> is the rvalue \<^verbatim>\<open>a[i]\<close>, \<open>wr a i v\<close> the assignment \<^verbatim>\<open>a[i] = v\<close>.\<close>

definition rd :: "byte list \<Rightarrow> int \<Rightarrow> error + byte" where
  "rd a i = (if 0 \<le> i \<and> i < int (length a) then Inr (a ! nat i) else Inl Out_Of_Bounds)"

definition wr :: "byte list \<Rightarrow> int \<Rightarrow> byte \<Rightarrow> error + byte list" where
  "wr a i v = (if 0 \<le> i \<and> i < int (length a) then Inr (a[nat i := v]) else Inl Out_Of_Bounds)"

section \<open>Order-statistic filter (\<^verbatim>\<open>median_blur.c\<close>)\<close>

text \<open>
  \<^verbatim>\<open>void swap(unsigned char *array_list, int i, int j)\<close>: exchanges two cells through
  \<^verbatim>\<open>temp\<close>.
\<close>

definition swap :: "byte list \<Rightarrow> int \<Rightarrow> int \<Rightarrow> error + byte list" where
  "swap array_list i j =
     (case rd array_list i of Inl e \<Rightarrow> Inl e
      | Inr temp \<Rightarrow>
          (case rd array_list j of Inl e \<Rightarrow> Inl e
           | Inr v \<Rightarrow>
               (case wr array_list i v of Inl e \<Rightarrow> Inl e
                | Inr a1 \<Rightarrow> wr a1 j temp)))"

text \<open>
  \<^verbatim>\<open>partition\<close> takes \<^verbatim>\<open>pivot = array_list[left]\<close> (promoted to \<^verbatim>\<open>int\<close>) and runs
  \<^verbatim>\<open>
  while (i < j) {
    for (; i <= right && array_list[i] <= pivot; i++);
    for (; array_list[j] > pivot; j--);
    if (i < j) swap(array_list, i, j);
  }
  swap(array_list, left, j);
  return j;
  \<close>
  \<open>partition_fwd\<close> is the first inner loop (the bound test short-circuits the read),
  \<open>partition_bwd\<close> the second one; it has no bound test of its own, so stepping below
  index 0 is an out-of-bounds read.
\<close>

function partition_fwd :: "byte list \<Rightarrow> int \<Rightarrow> int \<Rightarrow> int \<Rightarrow> error + int" where
  "partition_fwd a pivot right i =
     (if i \<le> right then
        (case rd a i of Inl e \<Rightarrow> Inl e
         | Inr v \<Rightarrow> if uint v \<le> pivot then partition_fwd a pivot right (i + 1) else Inr i)
      else Inr i)"
  by pat_completeness auto
termination
  by (relation "measure (\<lambda>(a, pivot, right, i). nat (right + 1 - i))") auto

function partition_bwd :: "byte list \<Rightarrow> int \<Rightarrow> int \<Rightarrow> error + int" where
  "partition_bwd a pivot j =
     (case rd a j of Inl e \<Rightarrow> Inl e
      | Inr v \<Rightarrow> if pivot < uint v then partition_bwd a pivot (j - 1) else Inr j)"
  by pat_completeness auto
termination
  by (relation "measure (\<lambda>(a, pivot, j). nat (j + 1))") (auto simp: rd_def split: if_splits)

text \<open>
  The outer \<^verbatim>\<open>while\<close> loop. From a state with \<open>right < i < j\<close> and both cells at most the
  pivot the C loop swaps the same two cells forever, so the loop is a partial function:
  \<open>None\<close> means that it does not return, \<open>Some (Inl e)\<close> that it faults, and
  \<open>Some (Inr (a, j))\<close> that it leaves the loop with array \<open>a\<close> and index \<open>j\<close>.
\<close>

partial_function (option) partition_loop ::
  "byte list \<Rightarrow> int \<Rightarrow> int \<Rightarrow> int \<Rightarrow> int \<Rightarrow> (error + byte list \<times> int) option" where
  "partition_loop a pivot right i j =
     (if i < j then
        (case partition_fwd a pivot right i of Inl e \<Rightarrow> Some (Inl e)
         | Inr i' \<Rightarrow>
             (case partition_bwd a pivot j of Inl e \<Rightarrow> Some (Inl e)
              | Inr j' \<Rightarrow>
                  if i' < j' then
                    (case swap a i' j' of Inl e \<Rightarrow> Some (Inl e)
                     | Inr a' \<Rightarrow> partition_loop a' pivot right i' j')
                  else partition_loop a pivot right i' j'))
      else Some (Inr (a, j)))"

declare partition_loop.simps [code]

text \<open>
  \<^verbatim>\<open>int partition(unsigned char *array_list, int left, int right)\<close>, named
  \<open>partition_c\<close> here because \<open>partition\<close> is a list function of HOL. The result is the
  array after the call together with the returned index.
\<close>

definition partition_c :: "byte list \<Rightarrow> int \<Rightarrow> int \<Rightarrow> (error + byte list \<times> int) option" where
  "partition_c array_list left right =
     (case rd array_list left of Inl e \<Rightarrow> Some (Inl e)
      | Inr p \<Rightarrow>
          (case partition_loop array_list (uint p) right left right of None \<Rightarrow> None
           | Some (Inl e) \<Rightarrow> Some (Inl e)
           | Some (Inr (a, j)) \<Rightarrow>
               (case swap a left j of Inl e \<Rightarrow> Some (Inl e)
                | Inr a' \<Rightarrow> Some (Inr (a', j)))))"

text \<open>
  \<^verbatim>\<open>
  void quick_sort(unsigned char *array_list, int left, int right) {
    if (left < right) {
      int j = partition(array_list, left, right);
      quick_sort(array_list, left, j - 1);
      quick_sort(array_list, j+1, right);
    }
  }
  \<close>
\<close>

partial_function (option) quick_sort ::
  "byte list \<Rightarrow> int \<Rightarrow> int \<Rightarrow> (error + byte list) option" where
  "quick_sort array_list left right =
     (if left < right then
        (case partition_c array_list left right of None \<Rightarrow> None
         | Some (Inl e) \<Rightarrow> Some (Inl e)
         | Some (Inr (a, j)) \<Rightarrow>
             Option.bind (quick_sort a left (j - 1))
               (\<lambda>r. case r of Inl e \<Rightarrow> Some (Inl e)
                     | Inr a' \<Rightarrow> quick_sort a' (j + 1) right))
      else Some (Inr array_list))"

declare quick_sort.simps [code]

text \<open>
  The three queries sort the whole container in place and index it; C's \<^verbatim>\<open>/\<close>
  truncates towards zero (\<open>sdiv\<close>). The result is the returned byte together with the
  container as the call leaves it.
\<close>

definition lower_quartile :: "byte list \<Rightarrow> int \<Rightarrow> (error + byte \<times> byte list) option" where
  "lower_quartile array_list num_elements =
     (case quick_sort array_list 0 (num_elements - 1) of None \<Rightarrow> None
      | Some (Inl e) \<Rightarrow> Some (Inl e)
      | Some (Inr a) \<Rightarrow>
          (case rd a ((num_elements - 1) sdiv 4) of Inl e \<Rightarrow> Some (Inl e)
           | Inr v \<Rightarrow> Some (Inr (v, a))))"

definition median :: "byte list \<Rightarrow> int \<Rightarrow> (error + byte \<times> byte list) option" where
  "median array_list num_elements =
     (case quick_sort array_list 0 (num_elements - 1) of None \<Rightarrow> None
      | Some (Inl e) \<Rightarrow> Some (Inl e)
      | Some (Inr a) \<Rightarrow>
          (case rd a ((num_elements - 1) sdiv 2) of Inl e \<Rightarrow> Some (Inl e)
           | Inr v \<Rightarrow> Some (Inr (v, a))))"

definition upper_quartile :: "byte list \<Rightarrow> int \<Rightarrow> (error + byte \<times> byte list) option" where
  "upper_quartile array_list num_elements =
     (case quick_sort array_list 0 (num_elements - 1) of None \<Rightarrow> None
      | Some (Inl e) \<Rightarrow> Some (Inl e)
      | Some (Inr a) \<Rightarrow>
          (case rd a (3 * (num_elements - 1) sdiv 4) of Inl e \<Rightarrow> Some (Inl e)
           | Inr v \<Rightarrow> Some (Inr (v, a))))"

section \<open>Frames\<close>

text \<open>
  The fields of OpenCV's \<^verbatim>\<open>IplImage\<close> that the code reads. \<open>imageData\<close> is the pixel
  buffer; the byte of channel \<open>c\<close> of pixel \<open>(x, y)\<close> is at offset
  \<open>y * widthStep + x * nChannels + c\<close>. The loops below never assign a header field, so
  they take the frame for its header and thread the pixel buffer as \<open>data\<close>.
\<close>

record IplImage =
  nChannels :: int
  width :: int
  height :: int
  widthStep :: int
  imageData :: "byte list"

text \<open>\<^verbatim>\<open>printf\<close>'s \<^verbatim>\<open>%d\<close>: the decimal digits of an \<^verbatim>\<open>int\<close>.\<close>

fun show_nat :: "nat \<Rightarrow> string" where
  "show_nat n = (if n < 10 then [char_of (48 + n)] else show_nat (n div 10) @ [char_of (48 + n mod 10)])"

declare show_nat.simps [simp del]

definition show_int :: "int \<Rightarrow> string" where
  "show_int i = (if i < 0 then CHR ''-'' # show_nat (nat (- i)) else show_nat (nat i))"

section \<open>Median blur filter (\<^verbatim>\<open>median_blur.c\<close>)\<close>

text \<open>
  \<^verbatim>\<open>
  int num_offsets = 2 * BLUR_RADIUS + 1;
  int num_elements = num_offsets * num_offsets;
  unsigned char array_list[num_elements];

  for (int y = BLUR_RADIUS; y < frame->height - BLUR_RADIUS; y++) {
    for (int x = BLUR_RADIUS; x < frame->width - BLUR_RADIUS; x++) {
      for (int yo = 0; yo <= num_offsets; yo++) {
        for (int xo = 0; xo <= num_offsets; xo++) {
          array_list[num_offsets * yo + xo]
            = frame->imageData[(y + yo - BLUR_RADIUS) * frame->widthStep
                               + x + xo - BLUR_RADIUS]
        }
      }
      frame->imageData[y * frame->widthStep + x]
        = median(array_list, num_elements);
    }
  }
  \<close>
  The four loops are \<open>blur_y\<close>, \<open>blur_x\<close>, \<open>blur_yo\<close> and \<open>blur_xo\<close>, with the source's
  bounds (\<^verbatim>\<open><=\<close> in the two window loops). The assignment in the innermost loop lacks its
  semicolon in the source; it is read as the assignment statement it evidently is, the
  pixel read first and the store into \<open>array_list\<close> second. \<open>array_list\<close> has
  \<open>num_elements\<close> cells, whose initial contents are indeterminate in C and zero here. It
  is declared outside the loops, so it keeps the order \<open>median\<close> leaves it in from one
  pixel to the next.
\<close>

definition BLUR_RADIUS :: int where
  "BLUR_RADIUS = 5"

definition num_offsets :: int where
  "num_offsets = 2 * BLUR_RADIUS + 1"

definition num_elements :: int where
  "num_elements = num_offsets * num_offsets"

function blur_xo :: "IplImage \<Rightarrow> byte list \<Rightarrow> byte list \<Rightarrow> int \<Rightarrow> int \<Rightarrow> int \<Rightarrow> int \<Rightarrow> error + byte list" where
  "blur_xo frame data array_list y x yo xo =
     (if xo \<le> num_offsets then
        (case rd data ((y + yo - BLUR_RADIUS) * widthStep frame + x + xo - BLUR_RADIUS) of
           Inl e \<Rightarrow> Inl e
         | Inr v \<Rightarrow>
             (case wr array_list (num_offsets * yo + xo) v of Inl e \<Rightarrow> Inl e
              | Inr a \<Rightarrow> blur_xo frame data a y x yo (xo + 1)))
      else Inr array_list)"
  by pat_completeness auto
termination
  by (relation "measure (\<lambda>(frame, data, array_list, y, x, yo, xo). nat (num_offsets + 1 - xo))") auto

function blur_yo :: "IplImage \<Rightarrow> byte list \<Rightarrow> byte list \<Rightarrow> int \<Rightarrow> int \<Rightarrow> int \<Rightarrow> error + byte list" where
  "blur_yo frame data array_list y x yo =
     (if yo \<le> num_offsets then
        (case blur_xo frame data array_list y x yo 0 of Inl e \<Rightarrow> Inl e
         | Inr a \<Rightarrow> blur_yo frame data a y x (yo + 1))
      else Inr array_list)"
  by pat_completeness auto
termination
  by (relation "measure (\<lambda>(frame, data, array_list, y, x, yo). nat (num_offsets + 1 - yo))") auto

function blur_x :: "IplImage \<Rightarrow> byte list \<Rightarrow> byte list \<Rightarrow> int \<Rightarrow> int \<Rightarrow> (error + byte list \<times> byte list) option" where
  "blur_x frame data array_list y x =
     (if x < width frame - BLUR_RADIUS then
        (case blur_yo frame data array_list y x 0 of Inl e \<Rightarrow> Some (Inl e)
         | Inr a \<Rightarrow>
             (case median a num_elements of None \<Rightarrow> None
              | Some (Inl e) \<Rightarrow> Some (Inl e)
              | Some (Inr (m, a')) \<Rightarrow>
                  (case wr data (y * widthStep frame + x) m of Inl e \<Rightarrow> Some (Inl e)
                   | Inr data' \<Rightarrow> blur_x frame data' a' y (x + 1))))
      else Some (Inr (data, array_list)))"
  by pat_completeness auto
termination
  by (relation "measure (\<lambda>(frame, data, array_list, y, x). nat (width frame - BLUR_RADIUS - x))") auto

function blur_y :: "IplImage \<Rightarrow> byte list \<Rightarrow> byte list \<Rightarrow> int \<Rightarrow> (error + byte list) option" where
  "blur_y frame data array_list y =
     (if y < height frame - BLUR_RADIUS then
        (case blur_x frame data array_list y BLUR_RADIUS of None \<Rightarrow> None
         | Some (Inl e) \<Rightarrow> Some (Inl e)
         | Some (Inr (data', a)) \<Rightarrow> blur_y frame data' a (y + 1))
      else Some (Inr data))"
  by pat_completeness auto
termination
  by (relation "measure (\<lambda>(frame, data, array_list, y). nat (height frame - BLUR_RADIUS - y))") auto

text \<open>
  \<^verbatim>\<open>
  if (frame->nChannels != 1) {
    fprintf(stderr, "median_blur was called with %d channels, but only supports"
                    " 1 channel.\n", frame->nChannels);
    exit(EXIT_FAILURE);
  }
  \<close>
  The function has no \<^verbatim>\<open>return\<close> statement; its effect is the frame it leaves behind.
\<close>

definition median_blur_message :: "int \<Rightarrow> string" where
  "median_blur_message n =
     ''median_blur was called with '' @ show_int n @
     '' channels, but only supports 1 channel.'' @ [CHR 0x0A]"

definition median_blur :: "IplImage \<Rightarrow> (error + IplImage) option" where
  "median_blur frame =
     (if nChannels frame \<noteq> 1 then
        Some (Inl (Exit_Failure (median_blur_message (nChannels frame)) (imageData frame)))
      else
        (case blur_y frame (imageData frame) (replicate (nat num_elements) 0) BLUR_RADIUS of
           None \<Rightarrow> None
         | Some (Inl e) \<Rightarrow> Some (Inl e)
         | Some (Inr data) \<Rightarrow> Some (Inr (frame\<lparr>imageData := data\<rparr>))))"

section \<open>Visual overlay (\<^verbatim>\<open>calibration.c\<close>)\<close>

text \<open>
  \<^verbatim>\<open>
  bool in_box(int x, int y, int box_x, int box_y, int width, int height) {
    return (x > box_x - width
      && x < box_x + width
      && y > box_y - height
      && y < box_y + height);
  }
  \<close>
  All four comparisons are strict: a coordinate on the edge of the box is not in it.
\<close>

definition in_box :: "int \<Rightarrow> int \<Rightarrow> int \<Rightarrow> int \<Rightarrow> int \<Rightarrow> int \<Rightarrow> bool" where
  "in_box x y box_x box_y box_width box_height =
     (x > box_x - box_width
      \<and> x < box_x + box_width
      \<and> y > box_y - box_height
      \<and> y < box_y + box_height)"

text \<open>
  \<^verbatim>\<open>
  for (int y = 0; y < frame->height; y++)
    for (int x = 0; x < frame->width; x++)
      if (!in_box(x, y, reg_x, reg_y, reg_width, reg_height))
        for (int w = 0; w < frame->nChannels; w++)
          frame->imageData[y * frame->widthStep + x * frame->nChannels + w] =
            (unsigned char) (frame->imageData[y * frame->widthStep + x * frame->nChannels + w]) / 4;
  \<close>
  \<open>quarter\<close> is the right-hand side: the byte read as unsigned, divided by 4 in \<^verbatim>\<open>int\<close>
  and stored back. The three loops are \<open>overlay_y\<close>, \<open>overlay_x\<close> and \<open>overlay_w\<close>.
\<close>

definition quarter :: "byte \<Rightarrow> byte" where
  "quarter v = word_of_int (uint v div 4)"

function overlay_w :: "IplImage \<Rightarrow> byte list \<Rightarrow> int \<Rightarrow> int \<Rightarrow> int \<Rightarrow> error + byte list" where
  "overlay_w frame data y x w =
     (if w < nChannels frame then
        (case rd data (y * widthStep frame + x * nChannels frame + w) of Inl e \<Rightarrow> Inl e
         | Inr v \<Rightarrow>
             (case wr data (y * widthStep frame + x * nChannels frame + w) (quarter v) of
                Inl e \<Rightarrow> Inl e
              | Inr data' \<Rightarrow> overlay_w frame data' y x (w + 1)))
      else Inr data)"
  by pat_completeness auto
termination
  by (relation "measure (\<lambda>(frame, data, y, x, w). nat (nChannels frame - w))") auto

function overlay_x ::
  "IplImage \<Rightarrow> byte list \<Rightarrow> int \<Rightarrow> int \<Rightarrow> int \<Rightarrow> int \<Rightarrow> int \<Rightarrow> int \<Rightarrow> error + byte list" where
  "overlay_x frame data reg_x reg_y reg_height reg_width y x =
     (if x < width frame then
        (if \<not> in_box x y reg_x reg_y reg_width reg_height then
           (case overlay_w frame data y x 0 of Inl e \<Rightarrow> Inl e
            | Inr data' \<Rightarrow> overlay_x frame data' reg_x reg_y reg_height reg_width y (x + 1))
         else overlay_x frame data reg_x reg_y reg_height reg_width y (x + 1))
      else Inr data)"
  by pat_completeness auto
termination
  by (relation "measure (\<lambda>(frame, data, reg_x, reg_y, reg_height, reg_width, y, x).
        nat (width frame - x))") auto

function overlay_y ::
  "IplImage \<Rightarrow> byte list \<Rightarrow> int \<Rightarrow> int \<Rightarrow> int \<Rightarrow> int \<Rightarrow> int \<Rightarrow> error + byte list" where
  "overlay_y frame data reg_x reg_y reg_height reg_width y =
     (if y < height frame then
        (case overlay_x frame data reg_x reg_y reg_height reg_width y 0 of Inl e \<Rightarrow> Inl e
         | Inr data' \<Rightarrow> overlay_y frame data' reg_x reg_y reg_height reg_width (y + 1))
      else Inr data)"
  by pat_completeness auto
termination
  by (relation "measure (\<lambda>(frame, data, reg_x, reg_y, reg_height, reg_width, y).
        nat (height frame - y))") auto

definition overlay_frame :: "IplImage \<Rightarrow> int \<Rightarrow> int \<Rightarrow> int \<Rightarrow> int \<Rightarrow> error + IplImage" where
  "overlay_frame frame reg_x reg_y reg_height reg_width =
     (case overlay_y frame (imageData frame) reg_x reg_y reg_height reg_width 0 of
        Inl e \<Rightarrow> Inl e
      | Inr data \<Rightarrow> Inr (frame\<lparr>imageData := data\<rparr>))"








section \<open>Calibration engine (\<^verbatim>\<open>calibration.c\<close>)\<close>

subsection \<open>The arithmetic of \<^verbatim>\<open>double\<close> and its conversion to \<^verbatim>\<open>unsigned char\<close>\<close>

text \<open>
  \<^verbatim>\<open>final_calibration\<close> multiplies 8-bit values by \<^verbatim>\<open>double\<close>s and stores the products
  in 8-bit fields. On the platforms OpenCV programs run on, \<^verbatim>\<open>double\<close> is IEEE 754
  binary64 and every literal and every operation is rounded to the nearest double, ties
  to the even significand. A finite double is modelled by the rational it denotes, and
  \<open>fl64 x\<close> is the double nearest to the rational \<open>x\<close>: with \<open>2^e \<le> \<bar>x\<bar> < 2^(e+1)\<close> the
  doubles around \<open>x\<close> are the multiples of \<open>u = 2^(e-52)\<close>, and \<open>\<bar>x\<bar> / u\<close> is rounded to
  the nearest integer, to the even one when it lies halfway. (Exponent range and
  subnormal numbers are left out: no value below leaves the normal range.)
  \<open>ilog2 x\<close> is the exponent \<open>e\<close> of a positive \<open>x\<close>.
\<close>

function ilog2 :: "rat \<Rightarrow> int" where
  "ilog2 x = (if x \<le> 0 then 0
              else if x < 1 then ilog2 (2 * x) - 1
              else if 2 \<le> x then ilog2 (x / 2) + 1
              else 0)"
  by pat_completeness auto
termination
proof (relation "measure (\<lambda>x. if 1 \<le> x then nat \<lfloor>x\<rfloor> else nat \<lfloor>1 / x\<rfloor> + 1)")
  have half: "\<lfloor>z / 2\<rfloor> < \<lfloor>z\<rfloor>" if "1 \<le> \<lfloor>z\<rfloor>" for z :: rat
  proof -
    have "z < of_int \<lfloor>z\<rfloor> + 1" by linarith
    moreover have "(1::rat) \<le> of_int \<lfloor>z\<rfloor>" using that by simp
    ultimately have "z / 2 < of_int \<lfloor>z\<rfloor>" by linarith
    then show ?thesis by (simp add: floor_less_iff)
  qed
  show "wf (measure (\<lambda>x::rat. if 1 \<le> x then nat \<lfloor>x\<rfloor> else nat \<lfloor>1 / x\<rfloor> + 1))" by simp
  show "(2 * x, x) \<in> measure (\<lambda>x. if 1 \<le> x then nat \<lfloor>x\<rfloor> else nat \<lfloor>1 / x\<rfloor> + 1)"
    if a: "\<not> x \<le> 0" "x < 1" for x :: rat
  proof -
    have ix: "1 < 1 / x" using a by simp
    then have f1: "1 \<le> \<lfloor>1 / x\<rfloor>" by linarith
    show ?thesis
    proof (cases "1 \<le> 2 * x")
      case True
      have "2 * x < 2" using a by simp
      then have "\<lfloor>2 * x\<rfloor> = 1" using True by linarith
      then show ?thesis using True a f1 by simp
    next
      case False
      have h: "(1 / x) / 2 = 1 / (2 * x)" by simp
      have "\<lfloor>1 / (2 * x)\<rfloor> < \<lfloor>1 / x\<rfloor>" using half[OF f1] unfolding h .
      moreover have "0 \<le> \<lfloor>1 / (2 * x)\<rfloor>" using a by simp
      ultimately show ?thesis using False a by simp
    qed
  qed
  show "(x / 2, x) \<in> measure (\<lambda>x. if 1 \<le> x then nat \<lfloor>x\<rfloor> else nat \<lfloor>1 / x\<rfloor> + 1)"
    if a: "\<not> x \<le> 0" "\<not> x < 1" "2 \<le> x" for x :: rat
  proof -
    have "1 \<le> \<lfloor>x\<rfloor>" using a by linarith
    then have "\<lfloor>x / 2\<rfloor> < \<lfloor>x\<rfloor>" by (rule half)
    moreover have "1 \<le> x / 2" using a by simp
    moreover have "0 \<le> \<lfloor>x / 2\<rfloor>" using a by simp
    ultimately show ?thesis using a by simp
  qed
qed

declare ilog2.simps [simp del]

definition fl64 :: "rat \<Rightarrow> rat" where
  "fl64 x = (if x = 0 then 0 else
     let u = 2 powi (ilog2 \<bar>x\<bar> - 52);
         q = \<bar>x\<bar> / u;
         n = \<lfloor>q\<rfloor>;
         r = q - of_int n;
         m = (if r < 1 / 2 \<or> (r = 1 / 2 \<and> even n) then n else n + 1)
     in sgn x * of_int m * u)"

text \<open>
  The conversion of a \<^verbatim>\<open>double\<close> to \<^verbatim>\<open>unsigned char\<close> drops the fraction. When the
  integer does not fit in 8 bits the C standard leaves the conversion undefined; the
  compiled reference converts through a wider integer and keeps the low 8 bits, which is
  the implicit truncation the specification describes. \<open>to_uchar\<close> is that conversion.
\<close>

definition trunc :: "rat \<Rightarrow> int" where
  "trunc d = (if d < 0 then \<lceil>d\<rceil> else \<lfloor>d\<rfloor>)"

definition to_uchar :: "rat \<Rightarrow> byte" where
  "to_uchar d = word_of_int (trunc d)"


subsection \<open>Calibration bands\<close>

text \<open>
  \<^verbatim>\<open>calibration_t\<close>, with \<^verbatim>\<open>CvScalar\<close> as its four \<^verbatim>\<open>double\<close> components;
  \<^verbatim>\<open>cvScalar(a, b, c)\<close> sets the fourth one to 0.
\<close>

type_synonym double = rat

type_synonym CvScalar = "double list"

definition cvScalar :: "double \<Rightarrow> double \<Rightarrow> double \<Rightarrow> CvScalar" where
  "cvScalar val0 val1 val2 = [val0, val1, val2, 0]"

record calibration_t =
  h_max :: byte
  h_min :: byte
  s_max :: byte
  s_min :: byte
  v_max :: byte
  v_min :: byte
  "done" :: bool
  upper :: CvScalar
  lower :: CvScalar

definition generic_calibration :: "calibration_t \<Rightarrow> calibration_t" where
  "generic_calibration c =
     c\<lparr>h_max := 25, h_min := 0, s_max := 150, s_min := 10, v_max := 255, v_min := 60,
       done := True\<rparr>"

subsection \<open>Sampling the region\<close>

text \<open>
  \<^verbatim>\<open>
  int size = 0;
  for (int y = reg_y - reg_height; y < reg_y + reg_height; y++)
    for (int x = reg_x - reg_width; x < reg_x + reg_width; x++)
      size++;
  \<close>
\<close>

function count_x :: "int \<Rightarrow> int \<Rightarrow> int \<Rightarrow> int \<Rightarrow> int" where
  "count_x reg_x reg_width x size' =
     (if x < reg_x + reg_width then count_x reg_x reg_width (x + 1) (size' + 1) else size')"
  by pat_completeness auto
termination
  by (relation "measure (\<lambda>(reg_x, reg_width, x, size'). nat (reg_x + reg_width - x))") auto

function count_y :: "int \<Rightarrow> int \<Rightarrow> int \<Rightarrow> int \<Rightarrow> int \<Rightarrow> int \<Rightarrow> int" where
  "count_y reg_x reg_y reg_height reg_width y size' =
     (if y < reg_y + reg_height then
        count_y reg_x reg_y reg_height reg_width (y + 1)
          (count_x reg_x reg_width (reg_x - reg_width) size')
      else size')"
  by pat_completeness auto
termination
  by (relation "measure (\<lambda>(reg_x, reg_y, reg_height, reg_width, y, size').
        nat (reg_y + reg_height - y))") auto

text \<open>
  Modelled from the spec: \<^verbatim>\<open>init_arr\<close> and \<^verbatim>\<open>uchar_array_t\<close> (declared outside the
  files at hand). The specification's sample container is a flat container of \<open>N\<close>
  unsigned bytes, created fresh for one sampling; its cells are zero until written.
\<close>

definition init_arr :: "int \<Rightarrow> byte list" where
  "init_arr size' = replicate (nat size') 0"

text \<open>
  \<^verbatim>\<open>
  int i = 0;
  for (int y = reg_y - reg_height; y < reg_y + reg_height; y++) {
    for (int x = reg_x - reg_width; x < reg_x + reg_width; x++) {
      h_arr->array[i] = frame->imageData[y * frame->widthStep + x * frame->nChannels];
      s_arr->array[i] = frame->imageData[y * frame->widthStep + x * frame->nChannels + 1];
      v_arr->array[i] = frame->imageData[y * frame->widthStep + x * frame->nChannels + 2];
      i++;
    }
  }
  \<close>
  The loops carry the three containers and \<open>i\<close>. \<open>sample_region\<close> is the first half of
  \<^verbatim>\<open>final_calibration\<close>: counting, allocating and sampling.
\<close>

function sample_x ::
  "IplImage \<Rightarrow> int \<Rightarrow> int \<Rightarrow> int \<Rightarrow> byte list \<times> byte list \<times> byte list \<times> int \<Rightarrow> int \<Rightarrow>
   error + byte list \<times> byte list \<times> byte list \<times> int" where
  "sample_x frame reg_x reg_width y (h_arr, s_arr, v_arr, i) x =
     (if x < reg_x + reg_width then
        (case rd (imageData frame) (y * widthStep frame + x * nChannels frame) of
           Inl e \<Rightarrow> Inl e
         | Inr h \<Rightarrow>
        (case wr h_arr i h of Inl e \<Rightarrow> Inl e
         | Inr h_arr' \<Rightarrow>
        (case rd (imageData frame) (y * widthStep frame + x * nChannels frame + 1) of
           Inl e \<Rightarrow> Inl e
         | Inr s \<Rightarrow>
        (case wr s_arr i s of Inl e \<Rightarrow> Inl e
         | Inr s_arr' \<Rightarrow>
        (case rd (imageData frame) (y * widthStep frame + x * nChannels frame + 2) of
           Inl e \<Rightarrow> Inl e
         | Inr v \<Rightarrow>
        (case wr v_arr i v of Inl e \<Rightarrow> Inl e
         | Inr v_arr' \<Rightarrow>
             sample_x frame reg_x reg_width y (h_arr', s_arr', v_arr', i + 1) (x + 1)))))))
      else Inr (h_arr, s_arr, v_arr, i))"
  by pat_completeness auto
termination
  by (relation "measure (\<lambda>(frame, reg_x, reg_width, y, st, x). nat (reg_x + reg_width - x))") auto

function sample_y ::
  "IplImage \<Rightarrow> int \<Rightarrow> int \<Rightarrow> int \<Rightarrow> int \<Rightarrow> byte list \<times> byte list \<times> byte list \<times> int \<Rightarrow> int \<Rightarrow>
   error + byte list \<times> byte list \<times> byte list \<times> int" where
  "sample_y frame reg_x reg_y reg_height reg_width st y =
     (if y < reg_y + reg_height then
        (case sample_x frame reg_x reg_width y st (reg_x - reg_width) of Inl e \<Rightarrow> Inl e
         | Inr st' \<Rightarrow> sample_y frame reg_x reg_y reg_height reg_width st' (y + 1))
      else Inr st)"
  by pat_completeness auto
termination
  by (relation "measure (\<lambda>(frame, reg_x, reg_y, reg_height, reg_width, st, y).
        nat (reg_y + reg_height - y))") auto

definition sample_region ::
  "IplImage \<Rightarrow> int \<Rightarrow> int \<Rightarrow> int \<Rightarrow> int \<Rightarrow> error + byte list \<times> byte list \<times> byte list" where
  "sample_region frame reg_x reg_y reg_height reg_width =
     (let size' = count_y reg_x reg_y reg_height reg_width (reg_y - reg_height) 0;
          h_arr = init_arr size';
          s_arr = init_arr size';
          v_arr = init_arr size'
      in case sample_y frame reg_x reg_y reg_height reg_width (h_arr, s_arr, v_arr, 0)
                (reg_y - reg_height) of
           Inl e \<Rightarrow> Inl e
         | Inr (h_arr, s_arr, v_arr, i) \<Rightarrow> Inr (h_arr, s_arr, v_arr))"

text \<open>
  Modelled from the spec: \<^verbatim>\<open>avg\<close> (declared outside the files at hand). The
  specification has it compute the arithmetic mean of a sample container; the mean of an
  empty container (0 / 0) does not exist.
\<close>

definition avg :: "byte list \<Rightarrow> error + double" where
  "avg a = (if a = [] then Inl Division_By_Zero
            else Inr (of_int (sum_list (map uint a)) / of_int (int (length a))))"

text \<open>
  Modelled from the spec: \<^verbatim>\<open>standard_dev\<close> (declared outside the files at hand). The
  specification has it compute a population standard deviation, which
  \<^verbatim>\<open>final_calibration\<close> discards; the container is taken to be left as it is.
\<close>

definition standard_dev :: "byte list \<Rightarrow> byte list" where
  "standard_dev a = a"

subsection \<open>Deriving the band\<close>

text \<open>
  \<^verbatim>\<open>
  standard_dev(h_arr); standard_dev(s_arr); standard_dev(v_arr);
  double range = 0.4;
  c->done = true;
  c->h_max = avg(h_arr);
  c->h_min = c->h_max * (1 - range);
  c->h_max *= 1 + range;
  ... the same for s and v ...
  c->lower = cvScalar(c->h_min, c->s_min, c->v_min);
  c->upper = cvScalar(c->h_max, c->s_max, c->v_max);
  \<close>
  Each \<open>fl64\<close> below is one rounding of the source: the literal \<^verbatim>\<open>0.4\<close>, the sum or
  difference with 1, and the product with the 8-bit value (which converts to
  \<^verbatim>\<open>double\<close> exactly). The six \<^verbatim>\<open>printf\<close> lines that follow change nothing and are left
  out.
\<close>

definition final_calibration ::
  "IplImage \<Rightarrow> calibration_t \<Rightarrow> int \<Rightarrow> int \<Rightarrow> int \<Rightarrow> int \<Rightarrow> error + calibration_t" where
  "final_calibration frame c reg_x reg_y reg_height reg_width =
     (case sample_region frame reg_x reg_y reg_height reg_width of Inl e \<Rightarrow> Inl e
      | Inr (h_arr, s_arr, v_arr) \<Rightarrow>
     (let h_arr = standard_dev h_arr;
          s_arr = standard_dev s_arr;
          v_arr = standard_dev v_arr;
          range = fl64 (4 / 10);
          c = c\<lparr>done := True\<rparr>
      in case avg h_arr of Inl e \<Rightarrow> Inl e
      | Inr h_avg \<Rightarrow>
     (let c = c\<lparr>h_max := to_uchar h_avg\<rparr>;
          c = c\<lparr>h_min := to_uchar (fl64 (of_int (uint (h_max c)) * fl64 (1 - range)))\<rparr>;
          c = c\<lparr>h_max := to_uchar (fl64 (of_int (uint (h_max c)) * fl64 (1 + range)))\<rparr>
      in case avg s_arr of Inl e \<Rightarrow> Inl e
      | Inr s_avg \<Rightarrow>
     (let c = c\<lparr>s_max := to_uchar s_avg\<rparr>;
          c = c\<lparr>s_min := to_uchar (fl64 (of_int (uint (s_max c)) * fl64 (1 - range)))\<rparr>;
          c = c\<lparr>s_max := to_uchar (fl64 (of_int (uint (s_max c)) * fl64 (1 + range)))\<rparr>
      in case avg v_arr of Inl e \<Rightarrow> Inl e
      | Inr v_avg \<Rightarrow>
     (let c = c\<lparr>v_max := to_uchar v_avg\<rparr>;
          c = c\<lparr>v_min := to_uchar (fl64 (of_int (uint (v_max c)) * fl64 (1 - range)))\<rparr>;
          c = c\<lparr>v_max := to_uchar (fl64 (of_int (uint (v_max c)) * fl64 (1 + range)))\<rparr>;
          c = c\<lparr>lower := cvScalar (of_int (uint (h_min c))) (of_int (uint (s_min c)))
                              (of_int (uint (v_min c)))\<rparr>;
          c = c\<lparr>upper := cvScalar (of_int (uint (h_max c))) (of_int (uint (s_max c)))
                              (of_int (uint (v_max c)))\<rparr>
      in Inr c)))))"

subsection \<open>Interactive calibration\<close>

text \<open>
  \<^verbatim>\<open>calibrate\<close> talks to OpenCV. \<open>opencv\<close> holds what the library answers:
  \<open>cvWaitKey cv n\<close> is the key code returned by the \<open>n\<close>-th call of \<^verbatim>\<open>cvWaitKey(10)\<close>
  (\<open>-1\<close> for no key), \<open>cvQueryFrame cv n\<close> the frame returned by the \<open>n\<close>-th call of
  \<^verbatim>\<open>cvQueryFrame(capture)\<close> (\<open>None\<close> for a null pointer), \<open>cvFlip\<close> the horizontal mirror
  and \<open>cvCvtColor\<close> the colour conversion. Showing and destroying the window change
  nothing and are left out.
  \<^verbatim>\<open>
  IplImage *frame = 0;
  calibration->done = false;
  int reg_x = 0; int reg_y = 0; int reg_height = 0; int reg_width = 0; int timer = 0;
  while ((cvWaitKey(10) != 'q' || calibration->done) && timer < 90) {
    frame = cvQueryFrame(capture);
    if (frame) {
      if (reg_x == 0) {
        reg_x = frame->width / 2;       reg_y = frame->height / 2;
        reg_height = frame->height / 20; reg_width = frame->width / 20;
      }
      overlay_frame(frame,reg_x, reg_y, reg_height, reg_width);
      cvFlip(frame, frame, 1);
      cvShowImage("Calibrate", frame);
    }
    timer++;
  }
  cvCvtColor(frame, frame, CV_BGR2HSV);
  final_calibration(frame, calibration, reg_x, reg_y, reg_height, reg_width);
  \<close>
  Each test of the loop condition calls \<^verbatim>\<open>cvWaitKey\<close> once and each round calls
  \<^verbatim>\<open>cvQueryFrame\<close> once, so both are the call number \<open>timer\<close>; \<open>113\<close> is \<^verbatim>\<open>'q'\<close>. After
  the loop the code uses \<open>frame\<close> without testing it: handing a null frame to
  \<^verbatim>\<open>cvCvtColor\<close> is the fault \<open>Null_Pointer\<close>.
\<close>

datatype conversion = CV_BGR2HSV | CV_HSV2BGR

record opencv =
  cvWaitKey :: "nat \<Rightarrow> int"
  cvQueryFrame :: "nat \<Rightarrow> IplImage option"
  cvFlip :: "IplImage \<Rightarrow> IplImage"
  cvCvtColor :: "conversion \<Rightarrow> IplImage \<Rightarrow> IplImage"

function calibrate_loop ::
  "opencv \<Rightarrow> calibration_t \<Rightarrow> IplImage option \<Rightarrow> int \<Rightarrow> int \<Rightarrow> int \<Rightarrow> int \<Rightarrow> int \<Rightarrow>
   error + IplImage option \<times> int \<times> int \<times> int \<times> int" where
  "calibrate_loop cv calibration frame reg_x reg_y reg_height reg_width timer =
     (if (cvWaitKey cv (nat timer) \<noteq> 113 \<or> done calibration) \<and> timer < 90 then
        (case cvQueryFrame cv (nat timer) of
           None \<Rightarrow> calibrate_loop cv calibration None reg_x reg_y reg_height reg_width (timer + 1)
         | Some f \<Rightarrow>
             (let (reg_x', reg_y', reg_height', reg_width') =
                    (if reg_x = 0
                     then (width f sdiv 2, height f sdiv 2, height f sdiv 20, width f sdiv 20)
                     else (reg_x, reg_y, reg_height, reg_width))
              in case overlay_frame f reg_x' reg_y' reg_height' reg_width' of Inl e \<Rightarrow> Inl e
                 | Inr f' \<Rightarrow>
                     calibrate_loop cv calibration (Some (cvFlip cv f'))
                       reg_x' reg_y' reg_height' reg_width' (timer + 1)))
      else Inr (frame, reg_x, reg_y, reg_height, reg_width))"
  by pat_completeness auto
termination
  by (relation "measure (\<lambda>(cv, calibration, frame, reg_x, reg_y, reg_height, reg_width, timer).
        nat (90 - timer))") auto

declare calibrate_loop.simps [simp del]

definition calibrate :: "opencv \<Rightarrow> calibration_t \<Rightarrow> error + calibration_t" where
  "calibrate cv calibration =
     (let calibration = calibration\<lparr>done := False\<rparr>
      in case calibrate_loop cv calibration None 0 0 0 0 0 of Inl e \<Rightarrow> Inl e
         | Inr (frame, reg_x, reg_y, reg_height, reg_width) \<Rightarrow>
             (case frame of None \<Rightarrow> Inl Null_Pointer
              | Some f \<Rightarrow>
                  final_calibration (cvCvtColor cv CV_BGR2HSV f) calibration
                    reg_x reg_y reg_height reg_width))"


text \<open>
  Notions for the proofs: the two band edges \<^verbatim>\<open>final_calibration\<close> derives from a mean
  \<open>m\<close> stored in 8 bits, and the two products before their conversion.
\<close>

definition band_lo :: "byte \<Rightarrow> byte" where
  "band_lo m = to_uchar (fl64 (of_int (uint m) * fl64 (1 - fl64 (4 / 10))))"

definition band_hi :: "byte \<Rightarrow> byte" where
  "band_hi m = to_uchar (fl64 (of_int (uint m) * fl64 (1 + fl64 (4 / 10))))"

definition prod_lo :: "int \<Rightarrow> rat" where
  "prod_lo k = fl64 (of_int k * fl64 (1 - fl64 (4 / 10)))"

definition prod_hi :: "int \<Rightarrow> rat" where
  "prod_hi k = fl64 (of_int k * fl64 (1 + fl64 (4 / 10)))"

section \<open>Correctness of the order-statistic filter\<close>

lemma rd_Inr: "0 \<le> i \<Longrightarrow> i < int (length a) \<Longrightarrow> rd a i = Inr (a ! nat i)"
  by (simp add: rd_def)

lemma swap_Inr:
  "0 \<le> i \<Longrightarrow> i < int (length a) \<Longrightarrow> 0 \<le> j \<Longrightarrow> j < int (length a) \<Longrightarrow>
   swap a i j = Inr (a[nat i := a ! nat j, nat j := a ! nat i])"
  by (simp add: swap_def rd_def wr_def)

lemma mset_swap_nat:
  "i < length a \<Longrightarrow> j < length a \<Longrightarrow> mset (a[i := a ! j, j := a ! i]) = mset a"
  by (simp add: mset_swap)

subsection \<open>The scanning loops\<close>

lemma partition_fwd_spec:
  "0 \<le> i \<Longrightarrow> right < int (length a) \<Longrightarrow>
   \<exists>i'. partition_fwd a pivot right i = Inr i' \<and> i \<le> i' \<and> (i \<le> right + 1 \<longrightarrow> i' \<le> right + 1) \<and>
     (\<forall>k. i \<le> k \<and> k < i' \<longrightarrow> uint (a ! nat k) \<le> pivot) \<and>
     (i' \<le> right \<longrightarrow> pivot < uint (a ! nat i'))"
proof (induction a pivot right i rule: partition_fwd.induct)
  case (1 a pivot right i)
  show ?case
  proof (cases "i \<le> right \<and> uint (a ! nat i) \<le> pivot")
    case True
    then have r: "rd a i = Inr (a ! nat i)" using 1 by (simp add: rd_def)
    from 1(1)[OF _ r] True 1(2,3)
    obtain i' where i': "partition_fwd a pivot right (i + 1) = Inr i'" "i + 1 \<le> i'"
      "i' \<le> right + 1"
      "\<forall>k. i + 1 \<le> k \<and> k < i' \<longrightarrow> uint (a ! nat k) \<le> pivot"
      "i' \<le> right \<longrightarrow> pivot < uint (a ! nat i')"
      by auto
    have "\<forall>k. i \<le> k \<and> k < i' \<longrightarrow> uint (a ! nat k) \<le> pivot"
    proof (intro allI impI)
      fix k assume "i \<le> k \<and> k < i'"
      then have "k = i \<or> (i + 1 \<le> k \<and> k < i')" by auto
      then show "uint (a ! nat k) \<le> pivot" using True i'(4) by auto
    qed
    then show ?thesis using True r i' by (subst partition_fwd.simps) simp
  next
    case False
    then show ?thesis using 1(2,3)
      by (subst partition_fwd.simps) (auto simp: rd_def)
  qed
qed

lemma partition_bwd_spec:
  "0 \<le> l \<Longrightarrow> l \<le> j \<Longrightarrow> j < int (length a) \<Longrightarrow> uint (a ! nat l) \<le> pivot \<Longrightarrow>
   \<exists>j'. partition_bwd a pivot j = Inr j' \<and> l \<le> j' \<and> j' \<le> j \<and>
     uint (a ! nat j') \<le> pivot \<and>
     (\<forall>k. j' < k \<and> k \<le> j \<longrightarrow> pivot < uint (a ! nat k))"
proof (induction a pivot j rule: partition_bwd.induct)
  case (1 a pivot j)
  have r: "rd a j = Inr (a ! nat j)" using 1 by (simp add: rd_def)
  show ?case
  proof (cases "pivot < uint (a ! nat j)")
    case True
    then have "l \<noteq> j" using 1(5) by auto
    then have lj: "l \<le> j - 1" using 1(3) by simp
    from 1(1)[OF r True 1(2) lj _ 1(5)] 1(4)
    obtain j' where j': "partition_bwd a pivot (j - 1) = Inr j'" "l \<le> j'" "j' \<le> j - 1"
      "uint (a ! nat j') \<le> pivot"
      "\<forall>k. j' < k \<and> k \<le> j - 1 \<longrightarrow> pivot < uint (a ! nat k)"
      by auto
    have "\<forall>k. j' < k \<and> k \<le> j \<longrightarrow> pivot < uint (a ! nat k)"
    proof (intro allI impI)
      fix k assume "j' < k \<and> k \<le> j"
      then have "k = j \<or> (j' < k \<and> k \<le> j - 1)" by auto
      then show "pivot < uint (a ! nat k)" using True j'(5) by auto
    qed
    then show ?thesis using True r j' by (subst partition_bwd.simps) simp
  next
    case False
    then show ?thesis using 1(2,3) r
      by (subst partition_bwd.simps) auto
  qed
qed


subsection \<open>The partition loop: invariant and termination\<close>

text \<open>
  The invariant of the outer loop: cells \<open>left..i-1\<close> are at most the pivot, cells
  \<open>j+1..right\<close> are above it, the pivot still sits at \<open>left\<close>, and while \<open>i < j\<close> the
  cell at \<open>i\<close> is at most the pivot, so the forward scan advances in every round and
  \<open>j - i\<close> decreases.
\<close>

lemma partition_loop_spec:
  assumes "0 \<le> left" "left \<le> i" "left \<le> j" "j \<le> right" "right < int (length a)"
    and "uint (a ! nat left) = pivot"
    and "\<forall>k. left \<le> k \<and> k < i \<longrightarrow> uint (a ! nat k) \<le> pivot"
    and "\<forall>k. j < k \<and> k \<le> right \<longrightarrow> pivot < uint (a ! nat k)"
    and "i < j \<longrightarrow> uint (a ! nat i) \<le> pivot"
    and "j \<le> i \<longrightarrow> uint (a ! nat j) \<le> pivot"
  shows "\<exists>a' j'. partition_loop a pivot right i j = Some (Inr (a', j')) \<and>
           left \<le> j' \<and> j' \<le> right \<and> length a' = length a \<and> mset a' = mset a \<and>
           a' ! nat left = a ! nat left \<and>
           (\<forall>k. left \<le> k \<and> k \<le> j' \<longrightarrow> uint (a' ! nat k) \<le> pivot) \<and>
           (\<forall>k. j' < k \<and> k \<le> right \<longrightarrow> pivot < uint (a' ! nat k)) \<and>
           (\<forall>k. k < nat left \<or> nat right < k \<longrightarrow> a' ! k = a ! k)"
  using assms
proof (induction "nat (j - i)" arbitrary: a i j rule: less_induct)
  case less
  show ?case
  proof (cases "i < j")
    case False
    have "\<forall>k. left \<le> k \<and> k \<le> j \<longrightarrow> uint (a ! nat k) \<le> pivot"
    proof (intro allI impI)
      fix k assume "left \<le> k \<and> k \<le> j"
      then have "(left \<le> k \<and> k < i) \<or> k = j" using False by auto
      then show "uint (a ! nat k) \<le> pivot" using less.prems(7,10) False by auto
    qed
    then show ?thesis using less.prems(3,4,8) False
      by (subst partition_loop.simps) simp
  next
    case True
    have i0: "0 \<le> i" using less.prems by simp
    from partition_fwd_spec[OF i0 less.prems(5), of pivot]
    obtain i' where i': "partition_fwd a pivot right i = Inr i'" "i \<le> i'" "i' \<le> right + 1"
      "\<forall>k. i \<le> k \<and> k < i' \<longrightarrow> uint (a ! nat k) \<le> pivot"
      "i' \<le> right \<longrightarrow> pivot < uint (a ! nat i')"
      using True less.prems(4) by auto
    have ii': "i < i'"
    proof (rule ccontr)
      assume "\<not> i < i'"
      then have "i' = i" using i'(2) by simp
      then show False using i'(5) True less.prems(4,9) by auto
    qed
    have lp: "uint (a ! nat left) \<le> pivot" using less.prems(6) by simp
    have jl: "j < int (length a)" using less.prems by simp
    from partition_bwd_spec[OF less.prems(1) less.prems(3) jl lp]
    obtain j' where j': "partition_bwd a pivot j = Inr j'" "left \<le> j'" "j' \<le> j"
      "uint (a ! nat j') \<le> pivot"
      "\<forall>k. j' < k \<and> k \<le> j \<longrightarrow> pivot < uint (a ! nat k)"
      by auto
    have below: "\<forall>k. left \<le> k \<and> k < i' \<longrightarrow> uint (a ! nat k) \<le> pivot"
    proof (intro allI impI)
      fix k assume "left \<le> k \<and> k < i'"
      then have "(left \<le> k \<and> k < i) \<or> (i \<le> k \<and> k < i')" by auto
      then show "uint (a ! nat k) \<le> pivot" using less.prems(7) i'(4) by blast
    qed
    have above: "\<forall>k. j' < k \<and> k \<le> right \<longrightarrow> pivot < uint (a ! nat k)"
    proof (intro allI impI)
      fix k assume "j' < k \<and> k \<le> right"
      then have "(j' < k \<and> k \<le> j) \<or> (j < k \<and> k \<le> right)" by auto
      then show "pivot < uint (a ! nat k)" using less.prems(8) j'(5) by blast
    qed
    show ?thesis
    proof (cases "i' < j'")
      case False
      have m: "nat (j' - i') < nat (j - i)" using False True by simp
      have "\<exists>a' j''. partition_loop a pivot right i' j' = Some (Inr (a', j'')) \<and>
           left \<le> j'' \<and> j'' \<le> right \<and> length a' = length a \<and> mset a' = mset a \<and>
           a' ! nat left = a ! nat left \<and>
           (\<forall>k. left \<le> k \<and> k \<le> j'' \<longrightarrow> uint (a' ! nat k) \<le> pivot) \<and>
           (\<forall>k. j'' < k \<and> k \<le> right \<longrightarrow> pivot < uint (a' ! nat k)) \<and>
           (\<forall>k. k < nat left \<or> nat right < k \<longrightarrow> a' ! k = a ! k)"
        using less.prems(1,4,5,6) i'(2) j'(2,3,4) False below above
        by (intro less.hyps[OF m]) auto
      then show ?thesis using True i'(1) j'(1) False
        by (subst partition_loop.simps) simp
    next
      case swp: True
      define b where "b = a[nat i' := a ! nat j', nat j' := a ! nat i']"
      have bounds: "0 \<le> i'" "i' < int (length a)" "0 \<le> j'" "j' < int (length a)"
        using i0 i'(2) swp j'(3) jl less.prems(1) j'(2) by auto
      have sw: "swap a i' j' = Inr b"
        unfolding b_def using bounds by (rule swap_Inr)
      have lenb: "length b = length a" by (simp add: b_def)
      have msb: "mset b = mset a"
        unfolding b_def using bounds by (intro mset_swap_nat) auto
      have li': "left < i'" using less.prems(2) ii' by simp
      have nth_b: "\<And>k. 0 \<le> k \<Longrightarrow> k \<noteq> i' \<Longrightarrow> k \<noteq> j' \<Longrightarrow> b ! nat k = a ! nat k"
        using bounds by (simp add: b_def nat_eq_iff)
      have bi: "b ! nat i' = a ! nat j'"
        using bounds swp by (simp add: b_def nat_eq_iff)
      have bj: "b ! nat j' = a ! nat i'"
        using bounds swp by (simp add: b_def)
      have i'r: "i' \<le> right" using swp j'(3) less.prems(4) by simp
      have m: "nat (j' - i') < nat (j - i)" using swp ii' j'(3) by simp
      have p6: "uint (b ! nat left) = pivot"
        using nth_b[of left] less.prems(1,6) li' swp by simp
      have p7: "\<forall>k. left \<le> k \<and> k < i' \<longrightarrow> uint (b ! nat k) \<le> pivot"
      proof (intro allI impI)
        fix k assume k: "left \<le> k \<and> k < i'"
        then have "b ! nat k = a ! nat k" using nth_b[of k] less.prems(1) swp by simp
        then show "uint (b ! nat k) \<le> pivot" using below k by simp
      qed
      have p8: "\<forall>k. j' < k \<and> k \<le> right \<longrightarrow> pivot < uint (b ! nat k)"
      proof (intro allI impI)
        fix k assume k: "j' < k \<and> k \<le> right"
        then have "b ! nat k = a ! nat k" using nth_b[of k] bounds swp by simp
        then show "pivot < uint (b ! nat k)" using above k by simp
      qed
      have p9: "i' < j' \<longrightarrow> uint (b ! nat i') \<le> pivot" using bi j'(4) by simp
      have p10: "j' \<le> i' \<longrightarrow> uint (b ! nat j') \<le> pivot" using swp by simp
      have rb: "right < int (length b)" using lenb less.prems(5) by simp
      from less.hyps[OF m less.prems(1) _ j'(2) _ rb p6 p7 p8 p9 p10]
      obtain a' j'' where r: "partition_loop b pivot right i' j' = Some (Inr (a', j''))"
           "left \<le> j''" "j'' \<le> right" "length a' = length b" "mset a' = mset b"
           "a' ! nat left = b ! nat left"
           "\<forall>k. left \<le> k \<and> k \<le> j'' \<longrightarrow> uint (a' ! nat k) \<le> pivot"
           "\<forall>k. j'' < k \<and> k \<le> right \<longrightarrow> pivot < uint (a' ! nat k)"
           "\<forall>k. k < nat left \<or> nat right < k \<longrightarrow> a' ! k = b ! k"
        using li' j'(3) less.prems(4) by auto
      have out: "\<forall>k. k < nat left \<or> nat right < k \<longrightarrow> a' ! k = a ! k"
      proof (intro allI impI)
        fix k :: nat assume k: "k < nat left \<or> nat right < k"
        then have "k \<noteq> nat i'" "k \<noteq> nat j'" using li' i'r swp less.prems(1,4) j'(3) by auto
        then have "b ! k = a ! k" by (simp add: b_def)
        moreover have "a' ! k = b ! k" using r(9) k by blast
        ultimately show "a' ! k = a ! k" by simp
      qed
      have "b ! nat left = a ! nat left" using nth_b[of left] less.prems(1) li' swp by simp
      then show ?thesis using True i'(1) j'(1) swp sw r out lenb msb
        by (subst partition_loop.simps) simp
    qed
  qed
qed


lemma partition_c_spec:
  assumes "0 \<le> left" "left \<le> right" "right < int (length a)"
  shows "\<exists>a' j. partition_c a left right = Some (Inr (a', j)) \<and>
           left \<le> j \<and> j \<le> right \<and> length a' = length a \<and> mset a' = mset a \<and>
           (\<forall>k. left \<le> k \<and> k \<le> j \<longrightarrow> a' ! nat k \<le> a' ! nat j) \<and>
           (\<forall>k. j < k \<and> k \<le> right \<longrightarrow> a' ! nat j < a' ! nat k) \<and>
           (\<forall>k. k < nat left \<or> nat right < k \<longrightarrow> a' ! k = a ! k)"
proof -
  define pivot where "pivot = uint (a ! nat left)"
  have r: "rd a left = Inr (a ! nat left)" using assms by (simp add: rd_def)
  have p6: "uint (a ! nat left) = pivot" by (simp add: pivot_def)
  have p7: "\<forall>k. left \<le> k \<and> k < left \<longrightarrow> uint (a ! nat k) \<le> pivot" by simp
  have p8: "\<forall>k. right < k \<and> k \<le> right \<longrightarrow> pivot < uint (a ! nat k)" by simp
  have p9: "left < right \<longrightarrow> uint (a ! nat left) \<le> pivot" by (simp add: pivot_def)
  have p10: "right \<le> left \<longrightarrow> uint (a ! nat right) \<le> pivot"
    using assms(2) by (auto simp: pivot_def)
  from partition_loop_spec[OF assms(1) order_refl assms(2) order_refl assms(3) p6 p7 p8 p9 p10]
  obtain b j where b: "partition_loop a pivot right left right = Some (Inr (b, j))"
    "left \<le> j" "j \<le> right" "length b = length a" "mset b = mset a"
    "b ! nat left = a ! nat left"
    "\<forall>k. left \<le> k \<and> k \<le> j \<longrightarrow> uint (b ! nat k) \<le> pivot"
    "\<forall>k. j < k \<and> k \<le> right \<longrightarrow> pivot < uint (b ! nat k)"
    "\<forall>k. k < nat left \<or> nat right < k \<longrightarrow> b ! k = a ! k"
    by blast
  define c where "c = b[nat left := b ! nat j, nat j := b ! nat left]"
  have bounds: "0 \<le> left" "left < int (length b)" "0 \<le> j" "j < int (length b)"
    using assms b(2,3,4) by auto
  have sw: "swap b left j = Inr c"
    unfolding c_def using bounds by (rule swap_Inr)
  have lenc: "length c = length a" using b(4) by (simp add: c_def)
  have msc: "mset c = mset a"
    unfolding c_def using bounds b(5) by (simp add: mset_swap_nat)
  have cj: "c ! nat j = b ! nat left" using bounds by (simp add: c_def)
  have cjp: "uint (c ! nat j) = pivot" using cj b(6) by (simp add: pivot_def)
  have nth_c: "\<And>k. 0 \<le> k \<Longrightarrow> k \<noteq> left \<Longrightarrow> k \<noteq> j \<Longrightarrow> c ! nat k = b ! nat k"
    using bounds by (simp add: c_def nat_eq_iff)
  have cl: "c ! nat left = b ! nat j \<or> left = j"
    using bounds by (auto simp: c_def nat_eq_iff)
  have low: "\<forall>k. left \<le> k \<and> k \<le> j \<longrightarrow> c ! nat k \<le> c ! nat j"
  proof (intro allI impI)
    fix k assume k: "left \<le> k \<and> k \<le> j"
    have "uint (c ! nat k) \<le> pivot"
    proof (cases "k = j")
      case True
      then show ?thesis using cjp by simp
    next
      case kj: False
      show ?thesis
      proof (cases "k = left")
        case True
        then have "c ! nat k = b ! nat j" using cl kj by auto
        then show ?thesis using b(7) b(2) by simp
      next
        case False
        then have "c ! nat k = b ! nat k" using nth_c[of k] kj k assms(1) by simp
        then show ?thesis using b(7) k by simp
      qed
    qed
    then show "c ! nat k \<le> c ! nat j" using cjp by (simp add: word_le_def)
  qed
  have high: "\<forall>k. j < k \<and> k \<le> right \<longrightarrow> c ! nat j < c ! nat k"
  proof (intro allI impI)
    fix k assume k: "j < k \<and> k \<le> right"
    then have "c ! nat k = b ! nat k" using nth_c[of k] b(2) assms(1) by simp
    then have "pivot < uint (c ! nat k)" using b(8) k by simp
    then show "c ! nat j < c ! nat k" using cjp by (simp add: word_less_def)
  qed
  have out: "\<forall>k. k < nat left \<or> nat right < k \<longrightarrow> c ! k = a ! k"
  proof (intro allI impI)
    fix k :: nat assume k: "k < nat left \<or> nat right < k"
    then have "k \<noteq> nat left" "k \<noteq> nat j" using b(2,3) assms(1) by auto
    then have "c ! k = b ! k" by (simp add: c_def)
    moreover have "b ! k = a ! k" using b(9) k by blast
    ultimately show "c ! k = a ! k" by simp
  qed
  have "partition_c a left right = Some (Inr (c, j))"
    using r b(1) sw by (simp add: partition_c_def pivot_def)
  then show ?thesis using b(2,3) lenc msc low high out by blast
qed

subsection \<open>Permutations inside an index segment\<close>

lemma segment_mset:
  assumes "length b = length a" "mset b = mset a"
    and "\<forall>k. k < l \<or> r < k \<longrightarrow> b ! k = a ! k"
  shows "mset (take (Suc r - l) (drop l b)) = mset (take (Suc r - l) (drop l a))"
proof -
  let ?n = "Suc r - l"
  have t: "take l b = take l a"
  proof (rule nth_equalityI)
    show "length (take l b) = length (take l a)" using assms(1) by simp
  next
    fix i assume "i < length (take l b)"
    then show "take l b ! i = take l a ! i" using assms(3) by simp
  qed
  have d: "drop (l + ?n) b = drop (l + ?n) a"
  proof (rule nth_equalityI)
    show "length (drop (l + ?n) b) = length (drop (l + ?n) a)" using assms(1) by simp
  next
    fix i assume "i < length (drop (l + ?n) b)"
    then have "l + ?n + i < length b" by simp
    moreover have "r < l + ?n + i" by simp
    ultimately show "drop (l + ?n) b ! i = drop (l + ?n) a ! i" using assms(1,3) by simp
  qed
  have sa: "a = take l a @ take ?n (drop l a) @ drop (l + ?n) a"
    by (metis add.commute append_take_drop_id drop_drop)
  have sb: "b = take l b @ take ?n (drop l b) @ drop (l + ?n) b"
    by (metis add.commute append_take_drop_id drop_drop)
  have "mset (take l a) + mset (take ?n (drop l a)) + mset (drop (l + ?n) a) = mset a"
    by (subst (4) sa) simp
  moreover have "mset (take l b) + mset (take ?n (drop l b)) + mset (drop (l + ?n) b) = mset b"
    by (subst (4) sb) simp
  ultimately have "mset (take l a) + mset (take ?n (drop l b)) + mset (drop (l + ?n) a)
      = mset (take l a) + mset (take ?n (drop l a)) + mset (drop (l + ?n) a)"
    using t d assms(2) by simp
  then show ?thesis by simp
qed

lemma segment_set:
  assumes "r < length a"
  shows "set (take (Suc r - l) (drop l a)) = {a ! k | k. l \<le> k \<and> k \<le> r}"
proof (intro equalityI subsetI)
  let ?m = "take (Suc r - l) (drop l a)"
  have len: "length ?m = Suc r - l" using assms by auto
  have nth: "\<And>i. i < Suc r - l \<Longrightarrow> ?m ! i = a ! (l + i)" using assms by simp
  {
    fix x assume "x \<in> set ?m"
    then obtain i where "i < length ?m" "?m ! i = x" by (auto simp: in_set_conv_nth)
    then have "x = a ! (l + i) \<and> l \<le> l + i \<and> l + i \<le> r" using len nth by auto
    then show "x \<in> {a ! k | k. l \<le> k \<and> k \<le> r}" by blast
  }
  {
    fix x assume "x \<in> {a ! k | k. l \<le> k \<and> k \<le> r}"
    then obtain k where k: "x = a ! k" "l \<le> k" "k \<le> r" by blast
    then have "k - l < length ?m" using len by auto
    then have "?m ! (k - l) \<in> set ?m" by (rule nth_mem)
    moreover have "?m ! (k - l) = x" using nth[of "k - l"] k by simp
    ultimately show "x \<in> set ?m" by simp
  }
qed

lemma segment_transfer:
  assumes "length b = length a" "mset b = mset a"
    and "\<forall>k. k < l \<or> r < k \<longrightarrow> b ! k = a ! k"
    and "r < length a"
    and "\<forall>k. l \<le> k \<and> k \<le> r \<longrightarrow> P (a ! k)"
  shows "\<forall>k. l \<le> k \<and> k \<le> r \<longrightarrow> P (b ! k)"
proof (intro allI impI)
  fix k assume k: "l \<le> k \<and> k \<le> r"
  have "set (take (Suc r - l) (drop l b)) = set (take (Suc r - l) (drop l a))"
    using segment_mset[OF assms(1,2,3)] by (rule mset_eq_setD)
  then have "{b ! k | k. l \<le> k \<and> k \<le> r} = {a ! k | k. l \<le> k \<and> k \<le> r}"
    using segment_set[of r a l] segment_set[of r b l] assms(1,4) by simp
  moreover have "b ! k \<in> {b ! k | k. l \<le> k \<and> k \<le> r}" using k by blast
  ultimately have "b ! k \<in> {a ! k | k. l \<le> k \<and> k \<le> r}" by simp
  then show "P (b ! k)" using assms(5) by auto
qed


lemma segment_transfer_int:
  assumes "length b = length a" "mset b = mset a"
    and "\<forall>k. 0 \<le> k \<and> (k < l \<or> r < k) \<longrightarrow> b ! nat k = a ! nat k"
    and "0 \<le> l" "r < int (length a)"
    and "\<forall>k. l \<le> k \<and> k \<le> r \<longrightarrow> P (a ! nat k)"
  shows "\<forall>k. l \<le> k \<and> k \<le> r \<longrightarrow> P (b ! nat k)"
proof (intro allI impI)
  fix k assume k: "l \<le> k \<and> k \<le> r"
  have out: "\<forall>n. n < nat l \<or> nat r < n \<longrightarrow> b ! n = a ! n"
  proof (intro allI impI)
    fix n :: nat assume "n < nat l \<or> nat r < n"
    then have "int n < l \<or> r < int n" by auto
    then show "b ! n = a ! n" using assms(3)[rule_format, of "int n"] by simp
  qed
  have rl: "nat r < length a" using assms(4,5) k by (simp add: nat_less_iff)
  have pa: "\<forall>n. nat l \<le> n \<and> n \<le> nat r \<longrightarrow> P (a ! n)"
  proof (intro allI impI)
    fix n :: nat assume "nat l \<le> n \<and> n \<le> nat r"
    then have "l \<le> int n \<and> int n \<le> r" using assms(4) k by auto
    then show "P (a ! n)" using assms(6)[rule_format, of "int n"] by simp
  qed
  have "nat l \<le> nat k \<and> nat k \<le> nat r" using k by (auto intro: nat_mono)
  then show "P (b ! nat k)"
    using segment_transfer[OF assms(1,2) out rl pa] by blast
qed

subsection \<open>Quicksort\<close>

lemma quick_sort_spec:
  assumes "0 \<le> left" "right < int (length a)"
  shows "\<exists>a'. quick_sort a left right = Some (Inr a') \<and>
           length a' = length a \<and> mset a' = mset a \<and>
           (\<forall>k. 0 \<le> k \<and> (k < left \<or> right < k) \<longrightarrow> a' ! nat k = a ! nat k) \<and>
           (\<forall>p q. left \<le> p \<and> p \<le> q \<and> q \<le> right \<longrightarrow> a' ! nat p \<le> a' ! nat q)"
  using assms
proof (induction "nat (right + 1 - left)" arbitrary: a left right rule: less_induct)
  case less
  show ?case
  proof (cases "left < right")
    case False
    have "\<forall>p q. left \<le> p \<and> p \<le> q \<and> q \<le> right \<longrightarrow> a ! nat p \<le> a ! nat q"
    proof (intro allI impI)
      fix p q assume "left \<le> p \<and> p \<le> q \<and> q \<le> right"
      then have "p = q" using False by simp
      then show "a ! nat p \<le> a ! nat q" by simp
    qed
    then show ?thesis using False by (subst quick_sort.simps) simp
  next
    case True
    then have lr: "left \<le> right" by simp
    from partition_c_spec[OF less.prems(1) lr less.prems(2)]
    obtain b j where b: "partition_c a left right = Some (Inr (b, j))"
      "left \<le> j" "j \<le> right" "length b = length a" "mset b = mset a"
      "\<forall>k. left \<le> k \<and> k \<le> j \<longrightarrow> b ! nat k \<le> b ! nat j"
      "\<forall>k. j < k \<and> k \<le> right \<longrightarrow> b ! nat j < b ! nat k"
      "\<forall>k. k < nat left \<or> nat right < k \<longrightarrow> b ! k = a ! k"
      by blast
    have j0: "0 \<le> j" using less.prems(1) b(2) by simp
    have m1: "nat (j - 1 + 1 - left) < nat (right + 1 - left)" using b(2,3) by simp
    have jb: "j - 1 < int (length b)" using b(3,4) less.prems(2) by simp
    from less.hyps[OF m1 less.prems(1) jb]
    obtain c where c: "quick_sort b left (j - 1) = Some (Inr c)"
      "length c = length b" "mset c = mset b"
      "\<forall>k. 0 \<le> k \<and> (k < left \<or> j - 1 < k) \<longrightarrow> c ! nat k = b ! nat k"
      "\<forall>p q. left \<le> p \<and> p \<le> q \<and> q \<le> j - 1 \<longrightarrow> c ! nat p \<le> c ! nat q"
      by blast
    have m2: "nat (right + 1 - (j + 1)) < nat (right + 1 - left)" using b(2,3) by simp
    have j1: "0 \<le> j + 1" using j0 by simp
    have rc: "right < int (length c)" using c(2) b(4) less.prems(2) by simp
    from less.hyps[OF m2 j1 rc]
    obtain d where d: "quick_sort c (j + 1) right = Some (Inr d)"
      "length d = length c" "mset d = mset c"
      "\<forall>k. 0 \<le> k \<and> (k < j + 1 \<or> right < k) \<longrightarrow> d ! nat k = c ! nat k"
      "\<forall>p q. j + 1 \<le> p \<and> p \<le> q \<and> q \<le> right \<longrightarrow> d ! nat p \<le> d ! nat q"
      by blast
    have run: "quick_sort a left right = Some (Inr d)"
      using True b(1) c(1) d(1) by (subst quick_sort.simps) simp
    have cj: "c ! nat j = b ! nat j" using c(4) j0 by simp
    have dj: "d ! nat j = b ! nat j" using d(4) j0 cj by simp
    have blow: "\<forall>k. left \<le> k \<and> k \<le> j - 1 \<longrightarrow> b ! nat k \<le> b ! nat j"
      using b(6) by simp
    have clow: "\<forall>k. left \<le> k \<and> k \<le> j - 1 \<longrightarrow> c ! nat k \<le> b ! nat j"
      by (rule segment_transfer_int[OF c(2,3,4) less.prems(1) jb blow])
    have dlow: "\<forall>k. left \<le> k \<and> k \<le> j - 1 \<longrightarrow> d ! nat k \<le> b ! nat j"
    proof (intro allI impI)
      fix k assume k: "left \<le> k \<and> k \<le> j - 1"
      then have "d ! nat k = c ! nat k" using d(4) less.prems(1) by simp
      then show "d ! nat k \<le> b ! nat j" using clow k by simp
    qed
    have chigh: "\<forall>k. j + 1 \<le> k \<and> k \<le> right \<longrightarrow> b ! nat j < c ! nat k"
    proof (intro allI impI)
      fix k assume k: "j + 1 \<le> k \<and> k \<le> right"
      then have "c ! nat k = b ! nat k" using c(4) j0 by simp
      then show "b ! nat j < c ! nat k" using b(7) k by simp
    qed
    have dhigh: "\<forall>k. j + 1 \<le> k \<and> k \<le> right \<longrightarrow> b ! nat j < d ! nat k"
      by (rule segment_transfer_int[OF d(2,3,4) j1 rc chigh])
    have srt: "\<forall>p q. left \<le> p \<and> p \<le> q \<and> q \<le> right \<longrightarrow> d ! nat p \<le> d ! nat q"
    proof (intro allI impI)
      fix p q assume pq: "left \<le> p \<and> p \<le> q \<and> q \<le> right"
      consider "q \<le> j - 1" | "p \<le> j - 1" "q = j" | "p \<le> j - 1" "j + 1 \<le> q"
        | "p = j" "q = j" | "p = j" "j + 1 \<le> q" | "j + 1 \<le> p"
        using pq by linarith
      then show "d ! nat p \<le> d ! nat q"
      proof cases
        case 1
        then have "d ! nat p = c ! nat p" "d ! nat q = c ! nat q"
          using d(4) pq less.prems(1) by auto
        then show ?thesis using c(5) pq 1 by simp
      next
        case 2
        then show ?thesis using dlow pq dj by simp
      next
        case 3
        then have "d ! nat p \<le> b ! nat j" "b ! nat j < d ! nat q"
          using dlow dhigh pq by auto
        then show ?thesis by simp
      next
        case 4
        then show ?thesis by simp
      next
        case 5
        then show ?thesis using dhigh pq dj by (simp add: less_imp_le)
      next
        case 6
        then show ?thesis using d(5) pq by simp
      qed
    qed
    have out: "\<forall>k. 0 \<le> k \<and> (k < left \<or> right < k) \<longrightarrow> d ! nat k = a ! nat k"
    proof (intro allI impI)
      fix k assume k: "0 \<le> k \<and> (k < left \<or> right < k)"
      then have "d ! nat k = c ! nat k" using d(4) b(2) by auto
      moreover have "c ! nat k = b ! nat k" using c(4) k b(3) by auto
      moreover have "nat k < nat left \<or> nat right < nat k" using k less.prems(1) True by auto
      then have "b ! nat k = a ! nat k" using b(8) by blast
      ultimately show "d ! nat k = a ! nat k" by simp
    qed
    show ?thesis using run d(2,3) c(2,3) b(4,5) srt out by simp
  qed
qed

lemma quick_sort_whole:
  "quick_sort a 0 (int (length a) - 1) = Some (Inr (sort a))"
proof -
  from quick_sort_spec[of 0 "int (length a) - 1" a]
  obtain a' where a': "quick_sort a 0 (int (length a) - 1) = Some (Inr a')"
    "length a' = length a" "mset a' = mset a"
    "\<forall>p q. 0 \<le> p \<and> p \<le> q \<and> q \<le> int (length a) - 1 \<longrightarrow> a' ! nat p \<le> a' ! nat q"
    by auto
  have "sorted a'"
  proof (subst sorted_iff_nth_mono, intro allI impI)
    fix i j assume "i \<le> j" "j < length a'"
    then have "0 \<le> int i \<and> int i \<le> int j \<and> int j \<le> int (length a) - 1"
      using a'(2) by auto
    then show "a' ! i \<le> a' ! j" using a'(4)[rule_format, of "int i" "int j"] by simp
  qed
  then have "sort a = a'" using a'(3) by (intro properties_for_sort) auto
  then show ?thesis using a'(1) by simp
qed


subsection \<open>Quartiles and median\<close>

lemma sdiv_nonneg: "0 \<le> k \<Longrightarrow> 0 < l \<Longrightarrow> (k::int) sdiv l = k div l"
  by (simp add: signed_divide_int_def sgn_if)

lemma rd_sorted_index:
  assumes "a \<noteq> []" "0 < d" "m \<le> d"
  shows "rd (sort a) (int m * (int (length a) - 1) sdiv int d)
       = Inr (sort a ! (m * (length a - 1) div d))"
proof -
  have n: "int (length a) - 1 = int (length a - 1)" using assms(1) by (cases a) auto
  have e: "int m * (int (length a) - 1) sdiv int d = int (m * (length a - 1) div d)"
    using assms(2) by (simp add: n sdiv_nonneg zdiv_int)
  have "m * (length a - 1) \<le> d * (length a - 1)" using assms(3) by simp
  then have "m * (length a - 1) div d \<le> d * (length a - 1) div d"
    by (rule div_le_mono)
  then have "m * (length a - 1) div d \<le> length a - 1"
    using assms(2) by simp
  then have "m * (length a - 1) div d < length (sort a)" using assms(1) by (cases a) auto
  then show ?thesis unfolding e by (simp add: rd_def)
qed

lemma lower_quartile_sorted:
  assumes "a \<noteq> []"
  shows "lower_quartile a (int (length a)) = Some (Inr (sort a ! ((length a - 1) div 4), sort a))"
  using rd_sorted_index[OF assms, of 4 1] quick_sort_whole[of a]
  by (simp add: lower_quartile_def)

lemma median_sorted:
  assumes "a \<noteq> []"
  shows "median a (int (length a)) = Some (Inr (sort a ! ((length a - 1) div 2), sort a))"
  using rd_sorted_index[OF assms, of 2 1] quick_sort_whole[of a]
  by (simp add: median_def)

lemma upper_quartile_sorted:
  assumes "a \<noteq> []"
  shows "upper_quartile a (int (length a)) = Some (Inr (sort a ! (3 * (length a - 1) div 4), sort a))"
  using rd_sorted_index[OF assms, of 4 3] quick_sort_whole[of a]
  by (simp add: upper_quartile_def)

lemma sort_mset_eq: "mset b = mset a \<Longrightarrow> sort b = sort (a :: byte list)"
  by (metis properties_for_sort sorted_sort mset_sort)

text \<open>
  Claim C1. For a non-empty container of length \<open>N\<close>, passed with \<open>num_elements = N\<close>,
  \<open>lower_quartile\<close>, \<open>median\<close> and \<open>upper_quartile\<close> return the entries at index
  \<open>(N-1) div 4\<close>, \<open>(N-1) div 2\<close> and \<open>3 * (N-1) div 4\<close> of the ascending sort of the
  contents (and leave the container sorted). For \<open>[40, 10, 30, 20, 50]\<close> they return 20, 30
  and 40; for a one-element container they return its element; and a permutation \<open>b\<close> of
  \<open>a\<close> gives the same results.
\<close>

theorem order_statistics_sorted_index:
  assumes "a \<noteq> []"
  shows "lower_quartile a (int (length a))
           = Some (Inr (sort a ! ((length a - 1) div 4), sort a)) \<and>
         median a (int (length a))
           = Some (Inr (sort a ! ((length a - 1) div 2), sort a)) \<and>
         upper_quartile a (int (length a))
           = Some (Inr (sort a ! (3 * (length a - 1) div 4), sort a)) \<and>
         lower_quartile [40, 10, 30, 20, 50] 5 = Some (Inr (20, [10, 20, 30, 40, 50])) \<and>
         median [40, 10, 30, 20, 50] 5 = Some (Inr (30, [10, 20, 30, 40, 50])) \<and>
         upper_quartile [40, 10, 30, 20, 50] 5 = Some (Inr (40, [10, 20, 30, 40, 50])) \<and>
         lower_quartile [x] 1 = Some (Inr (x, [x])) \<and>
         median [x] 1 = Some (Inr (x, [x])) \<and>
         upper_quartile [x] 1 = Some (Inr (x, [x])) \<and>
         (mset b = mset a \<longrightarrow>
            lower_quartile b (int (length b)) = lower_quartile a (int (length a)) \<and>
            median b (int (length b)) = median a (int (length a)) \<and>
            upper_quartile b (int (length b)) = upper_quartile a (int (length a)))"
proof -
  let ?e = "[40, 10, 30, 20, 50] :: byte list"
  have se: "sort ?e = [10, 20, 30, 40, 50]" by simp
  have e1: "lower_quartile ?e 5 = Some (Inr (20, [10, 20, 30, 40, 50]))"
    using lower_quartile_sorted[of ?e] by (simp add: se)
  have e2: "median ?e 5 = Some (Inr (30, [10, 20, 30, 40, 50]))"
    using median_sorted[of ?e] by (simp add: se)
  have e3: "upper_quartile ?e 5 = Some (Inr (40, [10, 20, 30, 40, 50]))"
    using upper_quartile_sorted[of ?e] by (simp add: se)
  have s1: "lower_quartile [x] 1 = Some (Inr (x, [x]))"
    using lower_quartile_sorted[of "[x]"] by simp
  have s2: "median [x] 1 = Some (Inr (x, [x]))"
    using median_sorted[of "[x]"] by simp
  have s3: "upper_quartile [x] 1 = Some (Inr (x, [x]))"
    using upper_quartile_sorted[of "[x]"] by simp
  have inv: "mset b = mset a \<longrightarrow>
            lower_quartile b (int (length b)) = lower_quartile a (int (length a)) \<and>
            median b (int (length b)) = median a (int (length a)) \<and>
            upper_quartile b (int (length b)) = upper_quartile a (int (length a))"
  proof
    assume m: "mset b = mset a"
    then have l: "length b = length a" by (rule mset_eq_length)
    then have bn: "b \<noteq> []" using assms by auto
    have sb: "sort b = sort a" using m by (rule sort_mset_eq)
    show "lower_quartile b (int (length b)) = lower_quartile a (int (length a)) \<and>
            median b (int (length b)) = median a (int (length a)) \<and>
            upper_quartile b (int (length b)) = upper_quartile a (int (length a))"
      using lower_quartile_sorted[OF assms] lower_quartile_sorted[OF bn]
        median_sorted[OF assms] median_sorted[OF bn]
        upper_quartile_sorted[OF assms] upper_quartile_sorted[OF bn]
      by (simp add: sb l)
  qed
  show ?thesis
    using lower_quartile_sorted[OF assms] median_sorted[OF assms] upper_quartile_sorted[OF assms]
      e1 e2 e3 s1 s2 s3 inv
    by blast
qed

theorem order_statistics_sorted_index_witness:
  "[70, 30, 90, 10 :: byte] \<noteq> [] \<and> mset [10, 90, 30, 70 :: byte] = mset [70, 30, 90, 10] \<and>
   lower_quartile [70, 30, 90, 10] 4 = Some (Inr (10, [10, 30, 70, 90])) \<and>
   median [70, 30, 90, 10] 4 = Some (Inr (30, [10, 30, 70, 90])) \<and>
   upper_quartile [70, 30, 90, 10] 4 = Some (Inr (70, [10, 30, 70, 90])) \<and>
   median [10, 90, 30, 70] 4 = median [70, 30, 90, 10] 4"
proof -
  have ne: "[70, 30, 90, 10 :: byte] \<noteq> []" by simp
  have ms: "mset [10, 90, 30, 70 :: byte] = mset [70, 30, 90, 10]" by simp
  have so: "sort [70, 30, 90, 10 :: byte] = [10, 30, 70, 90]" by simp
  show ?thesis
    using order_statistics_sorted_index[OF ne, of 0 "[10, 90, 30, 70]"] ms so by simp
qed

text \<open>
  Claim C3. For \<open>0 \<le> left \<le> right < length a\<close>, \<open>partition\<close> returns an index \<open>j\<close>
  with \<open>left \<le> j \<le> right\<close>; the array after the call is a permutation of the original,
  the cell at \<open>j\<close> is at least every cell in \<open>left..j-1\<close> and at most every cell in
  \<open>j+1..right\<close>. Arrays of equal elements are included.
\<close>

theorem partition_correct:
  assumes "0 \<le> left" "left \<le> right" "right < int (length a)"
  shows "\<exists>a' j. partition_c a left right = Some (Inr (a', j)) \<and>
           left \<le> j \<and> j \<le> right \<and> mset a' = mset a \<and>
           (\<forall>k. left \<le> k \<and> k < j \<longrightarrow> a' ! nat k \<le> a' ! nat j) \<and>
           (\<forall>k. j < k \<and> k \<le> right \<longrightarrow> a' ! nat j \<le> a' ! nat k)"
proof -
  from partition_c_spec[OF assms]
  obtain a' j where r: "partition_c a left right = Some (Inr (a', j))"
    "left \<le> j" "j \<le> right" "mset a' = mset a"
    "\<forall>k. left \<le> k \<and> k \<le> j \<longrightarrow> a' ! nat k \<le> a' ! nat j"
    "\<forall>k. j < k \<and> k \<le> right \<longrightarrow> a' ! nat j < a' ! nat k"
    by blast
  have "\<forall>k. left \<le> k \<and> k < j \<longrightarrow> a' ! nat k \<le> a' ! nat j" using r(5) by simp
  moreover have "\<forall>k. j < k \<and> k \<le> right \<longrightarrow> a' ! nat j \<le> a' ! nat k"
    using r(6) by (simp add: less_imp_le)
  ultimately show ?thesis using r(1,2,3,4) by blast
qed

theorem partition_correct_witness:
  "(0::int) \<le> 0 \<and> (0::int) \<le> 3 \<and> (3::int) < int (length [7, 7, 7, 7 :: byte]) \<and>
   partition_c [7, 7, 7, 7] 0 3 = Some (Inr ([7, 7, 7, 7], 3)) \<and>
   partition_c [30, 50, 10, 40, 20] 0 4 = Some (Inr ([10, 20, 30, 40, 50], 2)) \<and>
   (\<exists>a' j. partition_c [7, 7, 7, 7] 0 3 = Some (Inr (a', j)) \<and>
           0 \<le> j \<and> j \<le> 3 \<and> mset a' = mset [7, 7, 7, 7 :: byte] \<and>
           (\<forall>k. 0 \<le> k \<and> k < j \<longrightarrow> a' ! nat k \<le> a' ! nat j) \<and>
           (\<forall>k. j < k \<and> k \<le> 3 \<longrightarrow> a' ! nat j \<le> a' ! nat k))"
proof -
  have h: "(0::int) \<le> 0" "(0::int) \<le> 3" "(3::int) < int (length [7, 7, 7, 7 :: byte])"
    by simp_all
  have e1: "partition_c [7, 7, 7, 7] 0 3 = Some (Inr ([7, 7, 7, 7], 3))" by code_simp
  have e2: "partition_c [30, 50, 10, 40, 20] 0 4 = Some (Inr ([10, 20, 30, 40, 50], 2))"
    by code_simp
  show ?thesis using partition_correct[OF h] h e1 e2 by blast
qed

text \<open>
  Claim C4. For every array and every in-bounds index range, \<open>partition\<close> and
  \<open>quick_sort\<close> return (the value is \<open>Some\<close>, and no fault occurs); arrays whose elements
  are all equal are included.
\<close>

theorem partition_quick_sort_terminate:
  assumes "0 \<le> left" "left \<le> right" "right < int (length a)"
  shows "(\<exists>a' j. partition_c a left right = Some (Inr (a', j))) \<and>
         (\<exists>a'. quick_sort a left right = Some (Inr a'))"
proof -
  have "\<exists>a' j. partition_c a left right = Some (Inr (a', j))"
    using partition_c_spec[OF assms] by blast
  moreover have "\<exists>a'. quick_sort a left right = Some (Inr a')"
    using quick_sort_spec[OF assms(1,3)] by blast
  ultimately show ?thesis by blast
qed

theorem partition_quick_sort_terminate_witness:
  "(0::int) \<le> 0 \<and> (0::int) \<le> 4 \<and> (4::int) < int (length [5, 5, 5, 5, 5 :: byte]) \<and>
   partition_c [5, 5, 5, 5, 5] 0 4 = Some (Inr ([5, 5, 5, 5, 5], 4)) \<and>
   quick_sort [5, 5, 5, 5, 5] 0 4 = Some (Inr [5, 5, 5, 5, 5]) \<and>
   (\<exists>a' j. partition_c [5, 5, 5, 5, 5] 0 4 = Some (Inr (a', j))) \<and>
   (\<exists>a'. quick_sort [5, 5, 5, 5, 5] 0 4 = Some (Inr a'))"
proof -
  have h: "(0::int) \<le> 0" "(0::int) \<le> 4" "(4::int) < int (length [5, 5, 5, 5, 5 :: byte])"
    by simp_all
  have e1: "partition_c [5, 5, 5, 5, 5] 0 4 = Some (Inr ([5, 5, 5, 5, 5], 4))" by code_simp
  have e2: "quick_sort [5, 5, 5, 5, 5] 0 4 = Some (Inr [5, 5, 5, 5, 5])" by code_simp
  show ?thesis using partition_quick_sort_terminate[OF h] h e1 e2 by blast
qed

section \<open>Median blur: the window loops\<close>

text \<open>
  The window loops run \<open>yo\<close> and \<open>xo\<close> from 0 to \<open>num_offsets = 11\<close> inclusive, twelve
  values each, and store at \<open>11 * yo + xo\<close>. At \<open>yo = 10\<close>, \<open>xo = 11\<close> the index is 121,
  one past the last cell of \<open>array_list\<close>: whatever the frame holds, the gathering for the
  first interior pixel ends in an out-of-bounds access.
\<close>

lemma blur_xo_result:
  "(\<exists>a'. blur_xo frame data a y x yo xo = Inr a' \<and> length a' = length a) \<or>
   blur_xo frame data a y x yo xo = Inl Out_Of_Bounds"
proof (induction frame data a y x yo xo rule: blur_xo.induct)
  case (1 frame data array_list y x yo xo)
  show ?case
  proof (cases "xo \<le> num_offsets")
    case False
    then show ?thesis by (subst blur_xo.simps) simp
  next
    case True
    show ?thesis
    proof (cases "rd data ((y + yo - BLUR_RADIUS) * widthStep frame + x + xo - BLUR_RADIUS)")
      case (Inl e)
      then have "e = Out_Of_Bounds" by (auto simp: rd_def split: if_splits)
      then show ?thesis using True Inl by (subst (1 2) blur_xo.simps) simp
    next
      case (Inr v)
      show ?thesis
      proof (cases "wr array_list (num_offsets * yo + xo) v")
        case (Inl e)
        then have "e = Out_Of_Bounds" by (auto simp: wr_def split: if_splits)
        then show ?thesis using True Inr Inl by (subst (1 2) blur_xo.simps) simp
      next
        case w: (Inr a)
        then have "length a = length array_list" by (auto simp: wr_def split: if_splits)
        then show ?thesis using 1[OF True Inr w] True Inr w
          by (subst (1 2) blur_xo.simps) simp
      qed
    qed
  qed
qed

lemma blur_xo_last_row:
  "length a = 121 \<Longrightarrow> xo \<le> 11 \<Longrightarrow> blur_xo frame data a y x 10 xo = Inl Out_Of_Bounds"
proof (induction frame data a y x "10 :: int" xo rule: blur_xo.induct)
  case (1 frame data array_list y x xo)
  have xo: "xo \<le> num_offsets" using 1(3) by (simp add: num_offsets_def BLUR_RADIUS_def)
  show ?case
  proof (cases "rd data ((y + 10 - BLUR_RADIUS) * widthStep frame + x + xo - BLUR_RADIUS)")
    case (Inl e)
    then have "e = Out_Of_Bounds" by (auto simp: rd_def split: if_splits)
    then show ?thesis using xo Inl by (subst blur_xo.simps) simp
  next
    case (Inr v)
    show ?thesis
    proof (cases "wr array_list (num_offsets * 10 + xo) v")
      case (Inl e)
      then have "e = Out_Of_Bounds" by (auto simp: wr_def split: if_splits)
      then show ?thesis using xo Inr Inl by (subst blur_xo.simps) simp
    next
      case w: (Inr a)
      then have l: "length a = 121" and "xo < 11"
        using 1(2) by (auto simp: wr_def num_offsets_def BLUR_RADIUS_def split: if_splits)
      then have "blur_xo frame data a y x 10 (xo + 1) = Inl Out_Of_Bounds"
        using 1(1)[OF xo Inr w] by simp
      then show ?thesis using xo Inr w by (subst blur_xo.simps) simp
    qed
  qed
qed

lemma blur_yo_faults:
  "length a = 121 \<Longrightarrow> yo \<le> 10 \<Longrightarrow> blur_yo frame data a y x yo = Inl Out_Of_Bounds"
proof (induction frame data a y x yo rule: blur_yo.induct)
  case (1 frame data array_list y x yo)
  have yo: "yo \<le> num_offsets" using 1(3) by (simp add: num_offsets_def BLUR_RADIUS_def)
  show ?case
  proof (cases "yo = 10")
    case True
    then have "blur_xo frame data array_list y x yo 0 = Inl Out_Of_Bounds"
      using blur_xo_last_row[OF 1(2), of 0] by simp
    then show ?thesis using yo by (subst blur_yo.simps) simp
  next
    case False
    from blur_xo_result[of frame data array_list y x yo 0]
    show ?thesis
    proof
      assume "\<exists>a'. blur_xo frame data array_list y x yo 0 = Inr a' \<and> length a' = length array_list"
      then obtain a' where a': "blur_xo frame data array_list y x yo 0 = Inr a'" 
        "length a' = length array_list" by blast
      then have "blur_yo frame data a' y x (yo + 1) = Inl Out_Of_Bounds"
        using 1(1)[OF yo a'(1)] 1(2,3) False by simp
      then show ?thesis using yo a'(1) by (subst blur_yo.simps) simp
    next
      assume "blur_xo frame data array_list y x yo 0 = Inl Out_Of_Bounds"
      then show ?thesis using yo by (subst blur_yo.simps) simp
    qed
  qed
qed

lemma median_blur_faults:
  assumes "nChannels frame = 1" "11 \<le> width frame" "11 \<le> height frame"
  shows "median_blur frame = Some (Inl Out_Of_Bounds)"
proof -
  let ?a = "replicate (nat num_elements) (0 :: byte)"
  have l: "length ?a = 121" by (simp add: num_elements_def num_offsets_def BLUR_RADIUS_def)
  have g: "blur_yo frame (imageData frame) ?a BLUR_RADIUS BLUR_RADIUS 0 = Inl Out_Of_Bounds"
    using blur_yo_faults[OF l, of 0] by simp
  have x: "blur_x frame (imageData frame) ?a BLUR_RADIUS BLUR_RADIUS = Some (Inl Out_Of_Bounds)"
    using assms(2) g by (subst blur_x.simps) (simp add: BLUR_RADIUS_def)
  have y: "blur_y frame (imageData frame) ?a BLUR_RADIUS = Some (Inl Out_Of_Bounds)"
    using assms(3) x by (subst blur_y.simps) (simp add: BLUR_RADIUS_def)
  show ?thesis using assms(1) y by (simp add: median_blur_def)
qed


text \<open>
  Claim C9. A frame whose channel count is not 1 makes \<open>median_blur\<close> exit with failure
  after writing to \<^verbatim>\<open>stderr\<close> a message that names the actual channel count and the
  supported count 1; no filtered frame is produced and the pixel data at exit is the
  data the frame came with.
\<close>

theorem median_blur_wrong_channel_count:
  "nChannels frame \<noteq> 1 \<Longrightarrow>
   median_blur frame =
     Some (Inl (Exit_Failure
       (''median_blur was called with '' @ show_int (nChannels frame) @
        '' channels, but only supports 1 channel.'' @ [CHR 0x0A])
       (imageData frame)))"
  by (simp add: median_blur_def median_blur_message_def)

theorem median_blur_wrong_channel_count_witness:
  "nChannels \<lparr>nChannels = 3, width = 2, height = 1, widthStep = 8,
               imageData = [1, 2, 3, 4, 5, 6, 0, 0]\<rparr> \<noteq> 1 \<and>
   median_blur \<lparr>nChannels = 3, width = 2, height = 1, widthStep = 8,
                imageData = [1, 2, 3, 4, 5, 6, 0, 0]\<rparr> =
     Some (Inl (Exit_Failure
       (''median_blur was called with 3 channels, but only supports 1 channel.'' @ [CHR 0x0A])
       [1, 2, 3, 4, 5, 6, 0, 0]))"
proof -
  let ?f = "\<lparr>nChannels = 3, width = 2, height = 1, widthStep = 8,
             imageData = [1, 2, 3, 4, 5, 6, 0, 0 :: byte]\<rparr>"
  have h: "nChannels ?f \<noteq> 1" by simp
  have s: "show_int 3 = ''3''" by code_simp
  show ?thesis using median_blur_wrong_channel_count[OF h] s by simp
qed

text \<open>
  Claim C2 (not met by the code). The claim has each interior pixel replaced by the median
  of the 121 samples of its 11 x 11 window. The window loops of the source gather a
  12 x 12 window and store past the end of the 121-cell array. On the single-channel
  11 x 11 frame below (rows padded to \<open>widthStep = 12\<close>) the gathering for the only
  interior pixel \<open>(5, 5)\<close> already faults, and so does \<open>median_blur\<close>.
\<close>

theorem median_blur_window_overrun:
  "blur_yo \<lparr>nChannels = 1, width = 11, height = 11, widthStep = 12, imageData = replicate 132 7\<rparr>
     (replicate 132 7) (replicate 121 0) 5 5 0 = Inl Out_Of_Bounds \<and>
   median_blur \<lparr>nChannels = 1, width = 11, height = 11, widthStep = 12, imageData = replicate 132 7\<rparr>
     = Some (Inl Out_Of_Bounds)"
proof -
  let ?f = "\<lparr>nChannels = 1, width = 11, height = 11, widthStep = 12,
             imageData = replicate 132 (7 :: byte)\<rparr>"
  have "blur_yo ?f (replicate 132 7) (replicate 121 0) 5 5 0 = Inl Out_Of_Bounds"
    by (rule blur_yo_faults) simp_all
  moreover have "median_blur ?f = Some (Inl Out_Of_Bounds)"
    by (rule median_blur_faults) simp_all
  ultimately show ?thesis by simp
qed



section \<open>Visual overlay: which bytes change\<close>


























section \<open>Calibration: rounding, bands and the acquisition loop\<close>

subsection \<open>\<open>fl64\<close> is accurate to half a unit in the last place\<close>

lemma ilog2_bounds: "0 < x \<Longrightarrow> 2 powi ilog2 x \<le> x \<and> x < 2 powi (ilog2 x + 1)"
proof (induction x rule: ilog2.induct)
  case (1 x)
  show ?case
  proof (cases "x < 1")
    case True
    have e: "ilog2 x = ilog2 (2 * x) - 1" using 1(3) True by (subst ilog2.simps) simp
    have "2 powi ilog2 (2 * x) \<le> 2 * x \<and> 2 * x < 2 powi (ilog2 (2 * x) + 1)"
      using 1(1) 1(3) True by simp
    moreover have "(2::rat) powi (ilog2 (2 * x) - 1) = 2 powi ilog2 (2 * x) / 2"
      by (simp add: power_int_diff)
    moreover have "(2::rat) powi (ilog2 (2 * x) + 1) = 2 powi ilog2 (2 * x) * 2"
      by (simp add: power_int_add)
    ultimately show ?thesis unfolding e by simp
  next
    case False
    show ?thesis
    proof (cases "2 \<le> x")
      case True
      have e: "ilog2 x = ilog2 (x / 2) + 1" using 1(3) False True by (subst ilog2.simps) simp
      have "2 powi ilog2 (x / 2) \<le> x / 2 \<and> x / 2 < 2 powi (ilog2 (x / 2) + 1)"
        using 1(2) 1(3) False True by simp
      moreover have "(2::rat) powi (ilog2 (x / 2) + 1) = 2 powi ilog2 (x / 2) * 2"
        by (simp add: power_int_add)
      moreover have "(2::rat) powi (ilog2 (x / 2) + 1 + 1) = 2 powi ilog2 (x / 2) * 2 * 2"
        by (simp add: power_int_add)
      ultimately show ?thesis unfolding e by simp
    next
      case x2: False
      have e: "ilog2 x = 0" using 1(3) False x2 by (subst ilog2.simps) simp
      show ?thesis unfolding e using False x2 by simp
    qed
  qed
qed

lemma fl64_accurate: "\<bar>fl64 x - x\<bar> \<le> \<bar>x\<bar> / 2 ^ 53"
proof (cases "x = 0")
  case True
  then show ?thesis by (simp add: fl64_def)
next
  case False
  define u :: rat where "u = 2 powi (ilog2 \<bar>x\<bar> - 52)"
  define q where "q = \<bar>x\<bar> / u"
  define n where "n = \<lfloor>q\<rfloor>"
  define r where "r = q - of_int n"
  define m where "m = (if r < 1 / 2 \<or> (r = 1 / 2 \<and> even n) then n else n + 1)"
  have f: "fl64 x = sgn x * of_int m * u"
    using False by (simp add: fl64_def Let_def u_def q_def n_def r_def m_def)
  have u0: "0 < u" by (simp add: u_def)
  have r01: "0 \<le> r" "r < 1" unfolding r_def n_def by linarith+
  have mq: "\<bar>of_int m - q\<bar> \<le> 1 / 2"
  proof (cases "r < 1 / 2 \<or> (r = 1 / 2 \<and> even n)")
    case True
    then have "of_int m - q = - r" by (simp add: m_def r_def)
    then show ?thesis using True r01 by auto
  next
    case False
    then have "of_int m - q = 1 - r" by (simp add: m_def r_def)
    then show ?thesis using False r01 by auto
  qed
  have ax: "\<bar>x\<bar> = q * u" using u0 by (simp add: q_def)
  have xs: "sgn x * \<bar>x\<bar> = x" by (rule sgn_mult_abs)
  have "fl64 x - x = sgn x * of_int m * u - sgn x * \<bar>x\<bar>" using f xs by simp
  also have "\<dots> = sgn x * (of_int m * u - \<bar>x\<bar>)" by (simp add: algebra_simps)
  finally have "\<bar>fl64 x - x\<bar> = \<bar>sgn x\<bar> * \<bar>of_int m * u - \<bar>x\<bar>\<bar>"
    by (simp add: abs_mult)
  also have "\<dots> = \<bar>of_int m * u - \<bar>x\<bar>\<bar>" using False by (simp add: abs_sgn_eq)
  also have "\<dots> = \<bar>(of_int m - q) * u\<bar>" unfolding ax by (simp add: algebra_simps)
  also have "\<dots> = \<bar>of_int m - q\<bar> * u" using u0 by (simp add: abs_mult)
  also have "\<dots> \<le> (1 / 2) * u" using mq u0 by (intro mult_right_mono) simp_all
  also have "\<dots> = 2 powi ilog2 \<bar>x\<bar> / 2 ^ 53"
    by (simp add: u_def power_int_diff)
  also have "\<dots> \<le> \<bar>x\<bar> / 2 ^ 53"
    using ilog2_bounds[of "\<bar>x\<bar>"] False by (intro divide_right_mono) simp_all
  finally show ?thesis .
qed


subsection \<open>Rounding a value that lies just below a representable one\<close>

text \<open>
  \<open>ilog2\<close> is determined by the binade of its argument. For \<open>x\<close> in the binade
  \<open>[2^p, 2^(p+1))\<close> the doubles are the multiples of \<open>2^(p-52)\<close>; when \<open>x\<close> lies
  \<open>d\<close> units in the last place below the integer \<open>M\<close>, with \<open>0 < d < 1\<close>, it is rounded up to
  \<open>M\<close> if \<open>d \<le> 1/2\<close> (at \<open>d = 1/2\<close> the significand of \<open>M\<close> is the even one) and down to the
  double before \<open>M\<close> otherwise, and the conversion to an integer then gives \<open>M\<close> or
  \<open>M - 1\<close>.
\<close>

lemma ilog2_unique:
  assumes "2 powi e \<le> x" "x < 2 powi (e + 1)"
  shows "ilog2 x = e"
proof -
  have "(0::rat) < 2 powi e" by simp
  then have x: "0 < x" using assms(1) by linarith
  note b = ilog2_bounds[OF x]
  show ?thesis
  proof (rule ccontr)
    assume n: "ilog2 x \<noteq> e"
    show False
    proof (cases "ilog2 x < e")
      case True
      then have "(2::rat) powi (ilog2 x + 1) \<le> 2 powi e" by (intro power_int_increasing) simp_all
      then show False using b assms by linarith
    next
      case False
      then have "e + 1 \<le> ilog2 x" using n by simp
      then have "(2::rat) powi (e + 1) \<le> 2 powi ilog2 x" by (intro power_int_increasing) simp_all
      then show False using b assms by linarith
    qed
  qed
qed

lemma ilog2_nat:
  fixes x :: rat
  assumes "2 ^ p \<le> x" "x < 2 ^ Suc p"
  shows "ilog2 x = int p"
proof (rule ilog2_unique)
  show "2 powi int p \<le> x" using assms(1) by (simp only: power_int_of_nat)
  have "int p + 1 = int (Suc p)" by simp
  then have "(2::rat) powi (int p + 1) = 2 ^ Suc p" by (simp only: power_int_of_nat)
  then show "x < 2 powi (int p + 1)" using assms(2) by simp
qed

lemma fl64_pos:
  assumes "0 < x"
  shows "fl64 x = (let u = 2 powi (ilog2 x - 52); q = x / u; n = \<lfloor>q\<rfloor>; r = q - of_int n;
                       m = (if r < 1 / 2 \<or> (r = 1 / 2 \<and> even n) then n else n + 1)
                   in of_int m * u)"
proof -
  have "x \<noteq> 0" "\<bar>x\<bar> = x" "sgn x = 1" using assms by simp_all
  then show ?thesis unfolding fl64_def by (simp add: Let_def)
qed

lemma floor_fl64_below:
  fixes x d :: rat
  assumes "p < 52" "2 ^ p \<le> x" "x < 2 ^ Suc p"
    "x * 2 ^ (52 - p) = of_int M * 2 ^ (52 - p) - d" "0 < d" "d < 1"
  shows "\<lfloor>fl64 x\<rfloor> = (if d \<le> 1 / 2 then M else M - 1)"
proof -
  define W :: rat where "W = 2 ^ (52 - p)"
  define N :: int where "N = M * 2 ^ (52 - p)"
  have W2: "2 \<le> W"
  proof -
    have "1 \<le> 52 - p" using assms(1) by simp
    then have "(2::rat) ^ 1 \<le> 2 ^ (52 - p)" by (rule power_increasing) simp
    then show ?thesis unfolding W_def by (simp only: power_one_right)
  qed
  have NW: "(of_int N :: rat) = of_int M * W" by (simp add: N_def W_def)
  have evN: "even N" using assms(1) by (simp add: N_def)
  have "(0::rat) < 2 ^ p" by simp
  then have x0: "0 < x" using assms(2) by linarith
  have il: "ilog2 x = int p" using assms(2,3) by (rule ilog2_nat)
  have "int p - 52 = - int (52 - p)" using assms(1) by simp
  then have "(2::rat) powi (int p - 52) = 2 powi (- int (52 - p))" by (rule arg_cong)
  also have "\<dots> = inverse (2 ^ (52 - p))" by (simp only: power_int_minus power_int_of_nat)
  finally have u: "(2::rat) powi (int p - 52) = 1 / W" unfolding W_def by (simp only: inverse_eq_divide)
  have q: "x / (1 / W) = of_int N - d" using assms(4) by (simp add: NW W_def)
  have fq: "\<lfloor>of_int N - d\<rfloor> = N - 1" using assms(5,6) by linarith
  have r: "of_int N - d - of_int (N - 1) = 1 - d" by simp
  have odd: "\<not> even (N - 1)" using evN by simp
  define m where "m = (if 1 - d < 1 / 2 \<or> (1 - d = 1 / 2 \<and> even (N - 1)) then N - 1 else N - 1 + 1)"
  have f: "fl64 x = of_int m * (1 / W)"
    unfolding fl64_pos[OF x0] il u Let_def q fq r m_def ..
  have m: "m = (if d \<le> 1 / 2 then N else N - 1)"
    unfolding m_def using odd by auto
  show ?thesis
  proof (cases "d \<le> 1 / 2")
    case True
    then have "fl64 x = of_int M" using f W2 by (simp add: m NW)
    then show ?thesis using True by simp
  next
    case False
    then have "fl64 x = (of_int M * W - 1) / W" using f by (simp add: m NW)
    also have "\<dots> = of_int M - 1 / W" using W2 by (simp add: field_simps)
    finally have e: "fl64 x = of_int M - 1 / W" .
    have "0 < 1 / W" "1 / W \<le> 1 / 2" using W2 by (simp_all add: field_simps)
    then have "of_int (M - 1) \<le> fl64 x" "fl64 x < of_int (M - 1) + 1" unfolding e by simp_all
    then have "\<lfloor>fl64 x\<rfloor> = M - 1" by linarith
    then show ?thesis using False by simp
  qed
qed


subsection \<open>The two products\<close>

text \<open>
  The factors are the doubles nearest to 0.6 and 1.4: \<open>0.6 - 2^-53 / 5\<close> and
  \<open>1.4 - 2^-51 / 5\<close>. Both lie a little below the decimal value. For a mean \<open>k\<close> that is not
  a multiple of 5 the product is at least 0.2 away from the next integer, far more than
  the rounding error. For \<open>k = 5 j\<close> the exact products are \<open>3 j - j / 2^53\<close> and
  \<open>7 j - j / 2^51\<close>, just below an integer: the first is always rounded up to \<open>3 j\<close>, the
  second is rounded up to \<open>7 j\<close> when \<open>7 j\<close> is in the lower three quarters of its binade
  (\<open>4 j \<le> 2^p\<close>) and down to the double before \<open>7 j\<close> otherwise.
\<close>

lemma fl64_zero: "fl64 0 = 0"
  by (simp add: fl64_def)

lemma k_lo: "fl64 (1 - fl64 (4 / 10)) = 5404319552844595 / 9007199254740992"
  by code_simp

lemma k_hi: "fl64 (1 + fl64 (4 / 10)) = 3152519739159347 / 2251799813685248"
  by code_simp


lemma fl64_nonneg: "0 \<le> x \<Longrightarrow> 0 \<le> fl64 x"
proof -
  assume x: "0 \<le> x"
  have "\<bar>fl64 x - x\<bar> \<le> \<bar>x\<bar> / 2 ^ 53" by (rule fl64_accurate)
  moreover have "(2::rat) ^ 53 = 9007199254740992" by simp
  ultimately have "\<bar>fl64 x - x\<bar> \<le> x / 9007199254740992" using x by simp
  then show ?thesis using x by linarith
qed

lemma prod_lo_near:
  assumes "0 \<le> k" "k \<le> 255"
  shows "6 * of_int k / 10 - 1 / 1000 \<le> prod_lo k \<and> prod_lo k \<le> 6 * of_int k / 10 + 1 / 1000"
proof -
  define K :: rat where "K = of_int k"
  define F where "F = fl64 (K * (5404319552844595 / 9007199254740992))"
  have K: "0 \<le> K" "K \<le> 255" using assms by (simp_all add: K_def)
  have "\<bar>F - K * (5404319552844595 / 9007199254740992)\<bar>
      \<le> \<bar>K * (5404319552844595 / 9007199254740992)\<bar> / 2 ^ 53"
    unfolding F_def by (rule fl64_accurate)
  moreover have "\<bar>K * (5404319552844595 / 9007199254740992)\<bar>
      = K * (5404319552844595 / 9007199254740992)" using K by simp
  moreover have "(2::rat) ^ 53 = 9007199254740992" by simp
  ultimately have "\<bar>F - K * (5404319552844595 / 9007199254740992)\<bar>
      \<le> K * (5404319552844595 / 9007199254740992) / 9007199254740992"
    by simp
  then have "6 * K / 10 - 1 / 1000 \<le> F \<and> F \<le> 6 * K / 10 + 1 / 1000" using K by linarith
  then show ?thesis unfolding prod_lo_def k_lo F_def K_def .
qed

lemma prod_hi_near:
  assumes "0 \<le> k" "k \<le> 255"
  shows "14 * of_int k / 10 - 1 / 1000 \<le> prod_hi k \<and> prod_hi k \<le> 14 * of_int k / 10 + 1 / 1000"
proof -
  define K :: rat where "K = of_int k"
  define F where "F = fl64 (K * (3152519739159347 / 2251799813685248))"
  have K: "0 \<le> K" "K \<le> 255" using assms by (simp_all add: K_def)
  have "\<bar>F - K * (3152519739159347 / 2251799813685248)\<bar>
      \<le> \<bar>K * (3152519739159347 / 2251799813685248)\<bar> / 2 ^ 53"
    unfolding F_def by (rule fl64_accurate)
  moreover have "\<bar>K * (3152519739159347 / 2251799813685248)\<bar>
      = K * (3152519739159347 / 2251799813685248)" using K by simp
  moreover have "(2::rat) ^ 53 = 9007199254740992" by simp
  ultimately have "\<bar>F - K * (3152519739159347 / 2251799813685248)\<bar>
      \<le> K * (3152519739159347 / 2251799813685248) / 9007199254740992"
    by simp
  then have "14 * K / 10 - 1 / 1000 \<le> F \<and> F \<le> 14 * K / 10 + 1 / 1000" using K by linarith
  then show ?thesis unfolding prod_hi_def k_hi F_def K_def .
qed

lemma prod_nonneg:
  assumes "0 \<le> k"
  shows "0 \<le> prod_lo k" and "0 \<le> prod_hi k"
proof -
  have "0 \<le> of_int k * (5404319552844595 / 9007199254740992 :: rat)" using assms by simp
  then show "0 \<le> prod_lo k" unfolding prod_lo_def k_lo by (rule fl64_nonneg)
  have "0 \<le> of_int k * (3152519739159347 / 2251799813685248 :: rat)" using assms by simp
  then show "0 \<le> prod_hi k" unfolding prod_hi_def k_hi by (rule fl64_nonneg)
qed

lemma prod_zero: "prod_lo 0 = 0" "prod_hi 0 = 0"
  by (simp_all add: prod_lo_def prod_hi_def fl64_zero)

lemma floor_between:
  fixes F :: rat
  assumes "of_int z \<le> F" "F < of_int z + 1"
  shows "\<lfloor>F\<rfloor> = z"
  using assms by linarith

lemma floor_tenths:
  fixes F :: rat
  assumes "of_int n / 10 - 1 / 1000 \<le> F" "F \<le> of_int n / 10 + 1 / 1000" "n mod 10 \<noteq> 0"
  shows "\<lfloor>F\<rfloor> = n div 10"
proof -
  have "10 * (n div 10) + 1 \<le> n" "n \<le> 10 * (n div 10) + 9" using assms(3) by presburger+
  then have "of_int (10 * (n div 10) + 1) \<le> (of_int n :: rat)"
    "(of_int n :: rat) \<le> of_int (10 * (n div 10) + 9)"
    by (simp_all only: of_int_le_iff)
  then have b: "10 * of_int (n div 10) + 1 \<le> (of_int n :: rat)"
    "(of_int n :: rat) \<le> 10 * of_int (n div 10) + 9" by simp_all
  have "of_int (n div 10) \<le> F" using assms(1) b by linarith
  moreover have "F < of_int (n div 10) + 1" using assms(2) b by linarith
  ultimately show ?thesis by (rule floor_between)
qed

lemma of_int_scaled: "(of_int (c * k) :: rat) / 10 = of_int c * of_int k / 10"
  by simp

lemma floor_prod_exact:
  assumes "0 \<le> k" "k \<le> 255" "k mod 5 \<noteq> 0"
  shows "\<lfloor>prod_lo k\<rfloor> = 6 * k div 10" and "\<lfloor>prod_hi k\<rfloor> = 14 * k div 10"
proof -
  have l: "of_int (6 * k) / 10 - 1 / 1000 \<le> prod_lo k" "prod_lo k \<le> of_int (6 * k) / 10 + 1 / 1000"
    using prod_lo_near[OF assms(1,2)] by simp_all
  have "(6 * k) mod 10 \<noteq> 0" using assms(3) by presburger
  with l show "\<lfloor>prod_lo k\<rfloor> = 6 * k div 10" by (rule floor_tenths)
  have h: "of_int (14 * k) / 10 - 1 / 1000 \<le> prod_hi k" "prod_hi k \<le> of_int (14 * k) / 10 + 1 / 1000"
    using prod_hi_near[OF assms(1,2)] by simp_all
  have "(14 * k) mod 10 \<noteq> 0" using assms(3) by presburger
  with h show "\<lfloor>prod_hi k\<rfloor> = 14 * k div 10" by (rule floor_tenths)
qed

lemma binade_scale:
  assumes "p < 52"
  shows "(2::rat) ^ (52 - p) * 2 ^ p = 4503599627370496"
proof -
  have "(2::rat) ^ (52 - p) * 2 ^ p = 2 ^ (52 - p + p)" by (simp only: power_add)
  also have "52 - p + p = 52" using assms by simp
  finally show ?thesis by simp
qed

lemma floor_prod_hi_mult5:
  assumes "p < 52" "(2::int) ^ p < 7 * j" "7 * j < 2 ^ Suc p" "j \<le> 51"
  shows "\<lfloor>prod_hi (5 * j)\<rfloor> = (if 4 * j \<le> 2 ^ p then 7 * j else 7 * j - 1)"
proof -
  define J :: rat where "J = of_int j"
  define P :: rat where "P = 2 ^ p"
  define W :: rat where "W = 2 ^ (52 - p)"
  define x :: rat where "x = of_int (5 * j) * (3152519739159347 / 2251799813685248)"
  define d :: rat where "d = 2 * J / P"
  have P0: "0 < P" by (simp add: P_def)
  have "(2::int) ^ p + 1 \<le> 7 * j" using assms(2) by simp
  then have "(of_int (2 ^ p + 1) :: rat) \<le> of_int (7 * j)" by (simp only: of_int_le_iff)
  then have lo: "P + 1 \<le> 7 * J" by (simp add: P_def J_def)
  have "(of_int (7 * j) :: rat) < of_int (2 ^ Suc p)" using assms(3) by (simp only: of_int_less_iff)
  then have hi: "7 * J < 2 * P" by (simp add: P_def J_def)
  have "(of_int j :: rat) \<le> of_int 51" using assms(4) by (simp only: of_int_le_iff)
  then have J51: "J \<le> 51" by (simp add: J_def)
  have J0: "0 < J" using lo P0 by linarith
  have xe: "x = 7 * J - J / 2251799813685248" by (simp add: x_def J_def)
  have b1: "2 ^ p \<le> x" using lo J51 J0 unfolding xe P_def[symmetric] by linarith
  have b2: "x < 2 ^ Suc p"
  proof -
    have "x < 2 * P" using hi J0 unfolding xe by linarith
    then show ?thesis by (simp add: P_def)
  qed
  have WP: "W * P = 4503599627370496" unfolding W_def P_def using assms(1) by (rule binade_scale)
  have We: "W = 4503599627370496 / P" using WP P0 by (simp add: field_simps)
  have dW: "J / 2251799813685248 * W = d" unfolding We d_def using P0 by simp
  have "x * W = 7 * J * W - J / 2251799813685248 * W" unfolding xe by (simp add: algebra_simps)
  then have b3: "x * 2 ^ (52 - p) = of_int (7 * j) * 2 ^ (52 - p) - d"
    unfolding dW by (simp add: W_def J_def)
  have d0: "0 < d" using J0 P0 by (simp add: d_def)
  have d1: "d < 1" using hi J0 P0 by (simp add: d_def field_simps)
  have dh: "d \<le> 1 / 2 \<longleftrightarrow> 4 * j \<le> 2 ^ p"
  proof -
    have "d \<le> 1 / 2 \<longleftrightarrow> 4 * J \<le> P" using P0 by (simp add: d_def field_simps)
    also have "4 * J \<le> P \<longleftrightarrow> (of_int (4 * j) :: rat) \<le> of_int (2 ^ p)"
      by (simp add: J_def P_def)
    also have "\<dots> \<longleftrightarrow> 4 * j \<le> 2 ^ p" by (simp only: of_int_le_iff)
    finally show ?thesis .
  qed
  have "\<lfloor>fl64 x\<rfloor> = (if d \<le> 1 / 2 then 7 * j else 7 * j - 1)"
    using assms(1) b1 b2 b3 d0 d1 by (rule floor_fl64_below)
  then show ?thesis unfolding dh prod_hi_def k_hi x_def .
qed

lemma floor_prod_lo_mult5:
  assumes "p < 52" "(2::int) ^ p < 3 * j" "3 * j < 2 ^ Suc p" "j \<le> 51"
  shows "\<lfloor>prod_lo (5 * j)\<rfloor> = 3 * j"
proof -
  define J :: rat where "J = of_int j"
  define P :: rat where "P = 2 ^ p"
  define W :: rat where "W = 2 ^ (52 - p)"
  define x :: rat where "x = of_int (5 * j) * (5404319552844595 / 9007199254740992)"
  define d :: rat where "d = J / (2 * P)"
  have P0: "0 < P" by (simp add: P_def)
  have "(2::int) ^ p + 1 \<le> 3 * j" using assms(2) by simp
  then have "(of_int (2 ^ p + 1) :: rat) \<le> of_int (3 * j)" by (simp only: of_int_le_iff)
  then have lo: "P + 1 \<le> 3 * J" by (simp add: P_def J_def)
  have "(of_int (3 * j) :: rat) < of_int (2 ^ Suc p)" using assms(3) by (simp only: of_int_less_iff)
  then have hi: "3 * J < 2 * P" by (simp add: P_def J_def)
  have "(of_int j :: rat) \<le> of_int 51" using assms(4) by (simp only: of_int_le_iff)
  then have J51: "J \<le> 51" by (simp add: J_def)
  have J0: "0 < J" using lo P0 by linarith
  have xe: "x = 3 * J - J / 9007199254740992" by (simp add: x_def J_def)
  have b1: "2 ^ p \<le> x" using lo J51 J0 unfolding xe P_def[symmetric] by linarith
  have b2: "x < 2 ^ Suc p"
  proof -
    have "x < 2 * P" using hi J0 unfolding xe by linarith
    then show ?thesis by (simp add: P_def)
  qed
  have WP: "W * P = 4503599627370496" unfolding W_def P_def using assms(1) by (rule binade_scale)
  have We: "W = 4503599627370496 / P" using WP P0 by (simp add: field_simps)
  have dW: "J / 9007199254740992 * W = d" unfolding We d_def using P0 by simp
  have "x * W = 3 * J * W - J / 9007199254740992 * W" unfolding xe by (simp add: algebra_simps)
  then have b3: "x * 2 ^ (52 - p) = of_int (3 * j) * 2 ^ (52 - p) - d"
    unfolding dW by (simp add: W_def J_def)
  have d0: "0 < d" using J0 P0 by (simp add: d_def)
  have dh: "d \<le> 1 / 2" using hi J0 P0 by (simp add: d_def field_simps)
  then have d1: "d < 1" by simp
  have "\<lfloor>fl64 x\<rfloor> = (if d \<le> 1 / 2 then 3 * j else 3 * j - 1)"
    using assms(1) b1 b2 b3 d0 d1 by (rule floor_fl64_below)
  then show ?thesis using dh unfolding prod_lo_def k_lo x_def by simp
qed

lemma floor_prod_lo_fives:
  assumes "0 \<le> j" "j \<le> 51"
  shows "\<lfloor>prod_lo (5 * j)\<rfloor> = 3 * j"
proof -
  consider "j = 0" | "j = 1" | "j = 2" | "3 \<le> j \<and> j \<le> 5" | "6 \<le> j \<and> j \<le> 10"
    | "11 \<le> j \<and> j \<le> 21" | "22 \<le> j \<and> j \<le> 42" | "43 \<le> j \<and> j \<le> 51"
    using assms by linarith
  then show ?thesis
  proof cases
    case 1
    then show ?thesis by (simp add: prod_zero)
  next
    case 2
    then show ?thesis using floor_prod_lo_mult5[of 1 j] by simp
  next
    case 3
    then show ?thesis using floor_prod_lo_mult5[of 2 j] by simp
  next
    case 4
    then show ?thesis using floor_prod_lo_mult5[of 3 j] by simp
  next
    case 5
    then show ?thesis using floor_prod_lo_mult5[of 4 j] by simp
  next
    case 6
    then show ?thesis using floor_prod_lo_mult5[of 5 j] by simp
  next
    case 7
    then show ?thesis using floor_prod_lo_mult5[of 6 j] by simp
  next
    case 8
    then show ?thesis using floor_prod_lo_mult5[of 7 j] by simp
  qed
qed

lemma floor_prod_hi_fives:
  assumes "0 \<le> j" "j \<le> 51"
  shows "\<lfloor>prod_hi (5 * j)\<rfloor> = (if j = 9 \<or> j = 17 \<or> j = 18 \<or> 33 \<le> j \<and> j \<le> 36 then 7 * j - 1 else 7 * j)"
proof -
  consider "j = 0" | "j = 1" | "j = 2" | "3 \<le> j \<and> j \<le> 4" | "5 \<le> j \<and> j \<le> 9"
    | "10 \<le> j \<and> j \<le> 18" | "19 \<le> j \<and> j \<le> 36" | "37 \<le> j \<and> j \<le> 51"
    using assms by linarith
  then show ?thesis
  proof cases
    case 1
    then show ?thesis by (simp add: prod_zero)
  next
    case 2
    then show ?thesis using floor_prod_hi_mult5[of 2 j] by simp
  next
    case 3
    then show ?thesis using floor_prod_hi_mult5[of 3 j] by simp
  next
    case 4
    then show ?thesis using floor_prod_hi_mult5[of 4 j] by auto
  next
    case 5
    then show ?thesis using floor_prod_hi_mult5[of 5 j] by auto
  next
    case 6
    then show ?thesis using floor_prod_hi_mult5[of 6 j] by auto
  next
    case 7
    then show ?thesis using floor_prod_hi_mult5[of 7 j] by auto
  next
    case 8
    then show ?thesis using floor_prod_hi_mult5[of 8 j] by auto
  qed
qed

lemma floor_prod_mult5:
  assumes "0 \<le> k" "k \<le> 255" "k mod 5 = 0"
  shows "\<lfloor>prod_lo k\<rfloor> = 6 * k div 10"
    and "\<lfloor>prod_hi k\<rfloor> = (if k \<in> {45, 85, 90, 165, 170, 175, 180}
                            then 14 * k div 10 - 1 else 14 * k div 10)"
proof -
  define j where "j = k div 5"
  have k: "k = 5 * j" using assms(3) unfolding j_def by presburger
  have j: "0 \<le> j" "j \<le> 51" using assms(1,2) unfolding j_def by presburger+
  have d: "6 * k div 10 = 3 * j" "14 * k div 10 = 7 * j" unfolding k by presburger+
  show "\<lfloor>prod_lo k\<rfloor> = 6 * k div 10" unfolding d unfolding k using j by (rule floor_prod_lo_fives)
  have s: "k \<in> {45, 85, 90, 165, 170, 175, 180} \<longleftrightarrow> j = 9 \<or> j = 17 \<or> j = 18 \<or> 33 \<le> j \<and> j \<le> 36"
    unfolding k by auto
  show "\<lfloor>prod_hi k\<rfloor> = (if k \<in> {45, 85, 90, 165, 170, 175, 180}
                            then 14 * k div 10 - 1 else 14 * k div 10)"
    unfolding d s unfolding k using floor_prod_hi_fives[OF j] by simp
qed

lemma floor_prod_lo_value:
  assumes "0 \<le> k" "k \<le> 255"
  shows "\<lfloor>prod_lo k\<rfloor> = 6 * k div 10"
proof (cases "k mod 5 = 0")
  case True
  with assms show ?thesis by (rule floor_prod_mult5(1))
next
  case False
  with assms show ?thesis by (rule floor_prod_exact(1))
qed

lemma floor_prod_hi_value:
  assumes "0 \<le> k" "k \<le> 255"
  shows "\<lfloor>prod_hi k\<rfloor> = (if k \<in> {45, 85, 90, 165, 170, 175, 180}
                          then 14 * k div 10 - 1 else 14 * k div 10)"
proof (cases "k mod 5 = 0")
  case True
  with assms show ?thesis by (rule floor_prod_mult5(2))
next
  case False
  then have "k \<notin> {45, 85, 90, 165, 170, 175, 180}" by auto
  then show ?thesis using floor_prod_exact(2)[OF assms False] by simp
qed

lemma floor_prod_lo_range:
  assumes "0 \<le> k" "k \<le> 255"
  shows "0 \<le> \<lfloor>prod_lo k\<rfloor>" and "\<lfloor>prod_lo k\<rfloor> < 256"
proof -
  show "0 \<le> \<lfloor>prod_lo k\<rfloor>" using prod_nonneg(1)[OF assms(1)] by simp
  have K: "(of_int k :: rat) \<le> 255" using assms(2) by simp
  have "prod_lo k < 256" using prod_lo_near[OF assms] K by linarith
  then show "\<lfloor>prod_lo k\<rfloor> < 256" by linarith
qed

lemma floor_prod_wrap:
  assumes "183 \<le> k" "k \<le> 255"
  shows "\<lfloor>prod_hi k\<rfloor> mod 256 < \<lfloor>prod_lo k\<rfloor>"
proof -
  have k0: "0 \<le> k" using assms(1) by simp
  note nl = prod_lo_near[OF k0 assms(2)]
  note nh = prod_hi_near[OF k0 assms(2)]
  have K: "(183::rat) \<le> of_int k" "(of_int k :: rat) \<le> 255" using assms by simp_all
  have "256 \<le> prod_hi k" using nh K by linarith
  moreover have "prod_hi k < 358" using nh K by linarith
  ultimately have h: "256 \<le> \<lfloor>prod_hi k\<rfloor>" "\<lfloor>prod_hi k\<rfloor> < 358" by linarith+
  then have hm: "\<lfloor>prod_hi k\<rfloor> mod 256 = \<lfloor>prod_hi k\<rfloor> - 256" by presburger
  have "109 \<le> prod_lo k" using nl K by linarith
  then have l: "109 \<le> \<lfloor>prod_lo k\<rfloor>" by linarith
  show ?thesis unfolding hm using h(2) l by linarith
qed

subsection \<open>The band edges as bytes\<close>

lemma uint_to_uchar: "0 \<le> d \<Longrightarrow> uint (to_uchar d) = \<lfloor>d\<rfloor> mod 256"
  by (simp add: to_uchar_def trunc_def uint_word_of_int)

lemma uint_byte_range: "0 \<le> uint (m :: byte) \<and> uint m \<le> 255"
  using uint_lt2p[of m] by simp

lemma band_prod: "band_lo m = to_uchar (prod_lo (uint m))" "band_hi m = to_uchar (prod_hi (uint m))"
  by (simp_all add: band_lo_def band_hi_def prod_lo_def prod_hi_def)

lemma uint_band:
  "uint (band_lo m) = \<lfloor>prod_lo (uint m)\<rfloor>"
  "uint (band_hi m) = \<lfloor>prod_hi (uint m)\<rfloor> mod 256"
proof -
  have r: "0 \<le> uint m" "uint m \<le> 255" using uint_byte_range[of m] by simp_all
  show "uint (band_lo m) = \<lfloor>prod_lo (uint m)\<rfloor>"
    using prod_nonneg(1)[OF r(1)] floor_prod_lo_range[OF r]
    by (simp add: band_prod uint_to_uchar)
  show "uint (band_hi m) = \<lfloor>prod_hi (uint m)\<rfloor> mod 256"
    using prod_nonneg(2)[OF r(1)] by (simp add: band_prod uint_to_uchar)
qed

lemma band_lo_value: "uint (band_lo m) = 6 * uint m div 10"
  using floor_prod_lo_value[of "uint m"] uint_byte_range[of m] by (simp add: uint_band)

lemma band_hi_value:
  "uint (band_hi m) = (if uint m \<in> {45, 85, 90, 165, 170, 175, 180}
                       then 14 * uint m div 10 - 1 else 14 * uint m div 10 mod 256)"
proof -
  have r: "0 \<le> uint m" "uint m \<le> 255" using uint_byte_range[of m] by simp_all
  show ?thesis
  proof (cases "uint m \<in> {45, 85, 90, 165, 170, 175, 180}")
    case True
    then have "\<lfloor>prod_hi (uint m)\<rfloor> = 14 * uint m div 10 - 1"
      using floor_prod_hi_value[OF r] by simp
    moreover have "(14 * uint m div 10 - 1) mod 256 = 14 * uint m div 10 - 1"
      using True by auto
    ultimately show ?thesis using True by (simp add: uint_band)
  next
    case False
    then show ?thesis using floor_prod_hi_value[OF r] by (simp add: uint_band)
  qed
qed

lemma band_bytes:
  "band_lo m = word_of_int (6 * uint m div 10)"
  "band_hi m = word_of_int (if uint m \<in> {45, 85, 90, 165, 170, 175, 180}
                            then 14 * uint m div 10 - 1 else 14 * uint m div 10 mod 256)"
proof -
  have "band_lo m = word_of_int (uint (band_lo m))" by simp
  then show "band_lo m = word_of_int (6 * uint m div 10)" by (simp only: band_lo_value)
  have "band_hi m = word_of_int (uint (band_hi m))" by simp
  then show "band_hi m = word_of_int (if uint m \<in> {45, 85, 90, 165, 170, 175, 180}
                            then 14 * uint m div 10 - 1 else 14 * uint m div 10 mod 256)"
    by (simp only: band_hi_value)
qed

lemma band_wrapped:
  assumes "183 \<le> uint m"
  shows "band_hi m < band_lo m"
  using floor_prod_wrap[OF assms] uint_byte_range[of m] by (simp add: word_less_def uint_band)

lemma final_calibration_bands:
  assumes "sample_region frame reg_x reg_y reg_height reg_width = Inr (h_arr, s_arr, v_arr)"
    and "avg h_arr = Inr h_avg" "avg s_arr = Inr s_avg" "avg v_arr = Inr v_avg"
  shows "\<exists>c'. final_calibration frame c reg_x reg_y reg_height reg_width = Inr c' \<and> done c' \<and>
           h_min c' = band_lo (to_uchar h_avg) \<and> h_max c' = band_hi (to_uchar h_avg) \<and>
           s_min c' = band_lo (to_uchar s_avg) \<and> s_max c' = band_hi (to_uchar s_avg) \<and>
           v_min c' = band_lo (to_uchar v_avg) \<and> v_max c' = band_hi (to_uchar v_avg) \<and>
           lower c' = cvScalar (of_int (uint (h_min c'))) (of_int (uint (s_min c')))
                        (of_int (uint (v_min c'))) \<and>
           upper c' = cvScalar (of_int (uint (h_max c'))) (of_int (uint (s_max c')))
                        (of_int (uint (v_max c')))"
  using assms by (simp add: final_calibration_def standard_dev_def Let_def band_lo_def band_hi_def)



subsection \<open>The acquisition loop without frames\<close>

lemma calibrate_loop_no_frame:
  assumes "\<forall>n. cvQueryFrame cv n = None"
  shows "calibrate_loop cv calibration None reg_x reg_y reg_height reg_width timer
           = Inr (None, reg_x, reg_y, reg_height, reg_width)"
proof (induction "nat (90 - timer)" arbitrary: timer rule: less_induct)
  case less
  show ?case
  proof (cases "(cvWaitKey cv (nat timer) \<noteq> 113 \<or> done calibration) \<and> timer < 90")
    case True
    then have "nat (90 - (timer + 1)) < nat (90 - timer)" by simp
    then have "calibrate_loop cv calibration None reg_x reg_y reg_height reg_width (timer + 1)
           = Inr (None, reg_x, reg_y, reg_height, reg_width)" by (rule less)
    then show ?thesis using True assms by (subst calibrate_loop.simps) simp
  next
    case False
    then show ?thesis by (subst calibrate_loop.simps) auto
  qed
qed

lemma calibrate_no_frame:
  assumes "\<forall>n. cvQueryFrame cv n = None"
  shows "calibrate cv calibration = Inl Null_Pointer"
  using calibrate_loop_no_frame[OF assms] by (simp add: calibrate_def)


subsection \<open>Concrete bands\<close>

lemma final_calibration_eq:
  assumes "sample_region frame reg_x reg_y reg_height reg_width = Inr (h_arr, s_arr, v_arr)"
    and "avg h_arr = Inr h_avg" "avg s_arr = Inr s_avg" "avg v_arr = Inr v_avg"
  shows "final_calibration frame c reg_x reg_y reg_height reg_width =
     Inr (c\<lparr>h_max := band_hi (to_uchar h_avg), h_min := band_lo (to_uchar h_avg),
            s_max := band_hi (to_uchar s_avg), s_min := band_lo (to_uchar s_avg),
            v_max := band_hi (to_uchar v_avg), v_min := band_lo (to_uchar v_avg),
            done := True,
            upper := cvScalar (of_int (uint (band_hi (to_uchar h_avg))))
                       (of_int (uint (band_hi (to_uchar s_avg))))
                       (of_int (uint (band_hi (to_uchar v_avg)))),
            lower := cvScalar (of_int (uint (band_lo (to_uchar h_avg))))
                       (of_int (uint (band_lo (to_uchar s_avg))))
                       (of_int (uint (band_lo (to_uchar v_avg))))\<rparr>)"
  using assms by (simp add: final_calibration_def standard_dev_def Let_def band_lo_def band_hi_def)

lemma band_at:
  "band_lo 7 = 4" "band_hi 7 = 9"
  "band_lo 10 = 6" "band_hi 10 = 14"
  "band_lo 45 = 27" "band_hi 45 = 62"
  "band_lo 100 = 60" "band_hi 100 = 140"
  "band_lo 200 = 120" "band_hi 200 = 24"
  by (simp_all add: band_bytes)

lemma replicate_4: "replicate 4 x = [x, x, x, x]"
  by (simp add: eval_nat_numeral)

lemma avg_at:
  "avg (replicate 4 7) = Inr 7" "avg (replicate 4 10) = Inr 10" "avg (replicate 4 45) = Inr 45"
  "avg (replicate 4 100) = Inr 100" "avg (replicate 4 200) = Inr 200"
  by (simp_all add: avg_def replicate_4)

lemma to_uchar_at:
  "to_uchar 7 = 7" "to_uchar 10 = 10" "to_uchar 45 = 45" "to_uchar 100 = 100"
  "to_uchar 200 = 200"
  by (simp_all add: to_uchar_def trunc_def)




lemma sample_bright:
  "sample_region \<lparr>nChannels = 3, width = 2, height = 2, widthStep = 6,
      imageData = [10, 100, 200, 10, 100, 200, 10, 100, 200, 10, 100, 200]\<rparr>
     1 1 1 1 = Inr (replicate 4 10, replicate 4 100, replicate 4 200)"
  by code_simp

text \<open>
  Claim C5 (not met by the code). The claim has \<open>min \<le> max\<close> in every channel of every
  band with \<open>done = True\<close>. \<^verbatim>\<open>final_calibration\<close> stores 1.4 times the mean in the 8-bit
  field without clamping it: once the mean of a channel, as stored in 8 bits, is 183 or
  more, the product is 256 or more, only its low 8 bits are kept, and the band has
  \<open>done = True\<close> with the upper edge of that channel below its lower edge. The record
  declares these fields as the maximum and the minimum to match, and
  \<^verbatim>\<open>generic_calibration\<close> orders every channel.
\<close>

theorem final_calibration_band_inverted:
  assumes "sample_region frame reg_x reg_y reg_height reg_width = Inr (h_arr, s_arr, v_arr)"
    and "avg h_arr = Inr h_avg" "avg s_arr = Inr s_avg" "avg v_arr = Inr v_avg"
  shows "\<exists>c'. final_calibration frame c reg_x reg_y reg_height reg_width = Inr c' \<and> done c' \<and>
           (183 \<le> uint (to_uchar h_avg) \<longrightarrow> h_max c' < h_min c') \<and>
           (183 \<le> uint (to_uchar s_avg) \<longrightarrow> s_max c' < s_min c') \<and>
           (183 \<le> uint (to_uchar v_avg) \<longrightarrow> v_max c' < v_min c')"
proof -
  from final_calibration_bands[OF assms, of c]
  obtain c' where c': "final_calibration frame c reg_x reg_y reg_height reg_width = Inr c'"
    "done c'"
    "h_min c' = band_lo (to_uchar h_avg)" "h_max c' = band_hi (to_uchar h_avg)"
    "s_min c' = band_lo (to_uchar s_avg)" "s_max c' = band_hi (to_uchar s_avg)"
    "v_min c' = band_lo (to_uchar v_avg)" "v_max c' = band_hi (to_uchar v_avg)"
    by blast
  have "183 \<le> uint (to_uchar h_avg) \<longrightarrow> h_max c' < h_min c'"
    unfolding c'(3,4) using band_wrapped by blast
  moreover have "183 \<le> uint (to_uchar s_avg) \<longrightarrow> s_max c' < s_min c'"
    unfolding c'(5,6) using band_wrapped by blast
  moreover have "183 \<le> uint (to_uchar v_avg) \<longrightarrow> v_max c' < v_min c'"
    unfolding c'(7,8) using band_wrapped by blast
  ultimately show ?thesis using c'(1,2) by blast
qed

theorem final_calibration_band_inverted_witness:
  "sample_region \<lparr>nChannels = 3, width = 2, height = 2, widthStep = 6,
      imageData = [10, 100, 200, 10, 100, 200, 10, 100, 200, 10, 100, 200]\<rparr>
     1 1 1 1 = Inr (replicate 4 10, replicate 4 100, replicate 4 200) \<and>
   avg (replicate 4 10) = Inr 10 \<and> avg (replicate 4 100) = Inr 100 \<and>
   avg (replicate 4 200) = Inr 200 \<and> 183 \<le> uint (to_uchar 200) \<and>
   final_calibration \<lparr>nChannels = 3, width = 2, height = 2, widthStep = 6,
      imageData = [10, 100, 200, 10, 100, 200, 10, 100, 200, 10, 100, 200]\<rparr>
      \<lparr>h_max = 0, h_min = 0, s_max = 0, s_min = 0, v_max = 0, v_min = 0, done = False,
       upper = [], lower = []\<rparr> 1 1 1 1
    = Inr \<lparr>h_max = 14, h_min = 6, s_max = 140, s_min = 60, v_max = 24, v_min = 120,
           done = True, upper = [14, 140, 24, 0], lower = [6, 60, 120, 0]\<rparr> \<and>
   (\<exists>c'. final_calibration \<lparr>nChannels = 3, width = 2, height = 2, widthStep = 6,
      imageData = [10, 100, 200, 10, 100, 200, 10, 100, 200, 10, 100, 200]\<rparr>
      \<lparr>h_max = 0, h_min = 0, s_max = 0, s_min = 0, v_max = 0, v_min = 0, done = False,
       upper = [], lower = []\<rparr> 1 1 1 1 = Inr c' \<and> done c' \<and> v_max c' < v_min c')"
proof -
  let ?f = "\<lparr>nChannels = 3, width = 2, height = 2, widthStep = 6,
      imageData = [10, 100, 200, 10, 100, 200, 10, 100, 200, 10, 100, 200 :: byte]\<rparr>"
  let ?c = "\<lparr>h_max = 0, h_min = 0, s_max = 0, s_min = 0, v_max = 0, v_min = 0, done = False,
       upper = [], lower = []\<rparr>"
  have u: "183 \<le> uint (to_uchar 200)" by (simp add: to_uchar_at)
  have e: "final_calibration ?f ?c 1 1 1 1
    = Inr \<lparr>h_max = 14, h_min = 6, s_max = 140, s_min = 60, v_max = 24, v_min = 120,
           done = True, upper = [14, 140, 24, 0], lower = [6, 60, 120, 0]\<rparr>"
    unfolding final_calibration_eq[OF sample_bright avg_at(2,4,5)] to_uchar_at band_at
    by (simp add: cvScalar_def)
  have "\<exists>c'. final_calibration ?f ?c 1 1 1 1 = Inr c' \<and> done c' \<and> v_max c' < v_min c'"
    using final_calibration_band_inverted[OF sample_bright avg_at(2,4,5), of ?c] u by blast
  then show ?thesis using sample_bright avg_at(2,4,5) u e by blast
qed




text \<open>
  Claim C8 (not met by the code). The claim has \<open>calibrate\<close> fail with an explicit
  "no frame acquired" error when the capture never yields a frame. The loop tests
  \<open>frame\<close> before using it, the code after the loop does not: with no frame ever
  acquired, \<open>frame\<close> is still null when it is handed to \<^verbatim>\<open>cvCvtColor\<close> and
  \<^verbatim>\<open>final_calibration\<close>, and no error of the program's own is raised.
\<close>

theorem calibrate_without_frame_dereferences_null:
  assumes "\<forall>n. cvQueryFrame cv n = None"
  shows "calibrate cv calibration = Inl Null_Pointer"
  using assms by (rule calibrate_no_frame)

theorem calibrate_without_frame_dereferences_null_witness:
  "(\<forall>n. cvQueryFrame \<lparr>cvWaitKey = (\<lambda>n. - 1), cvQueryFrame = (\<lambda>n. None), cvFlip = id,
                        cvCvtColor = (\<lambda>code. id)\<rparr> n = None) \<and>
   calibrate \<lparr>cvWaitKey = (\<lambda>n. - 1), cvQueryFrame = (\<lambda>n. None), cvFlip = id,
              cvCvtColor = (\<lambda>code. id)\<rparr>
     \<lparr>h_max = 0, h_min = 0, s_max = 0, s_min = 0, v_max = 0, v_min = 0, done = False,
      upper = [], lower = []\<rparr> = Inl Null_Pointer"
proof -
  let ?cv = "\<lparr>cvWaitKey = (\<lambda>n. - 1), cvQueryFrame = (\<lambda>n. None), cvFlip = id,
              cvCvtColor = (\<lambda>code. id)\<rparr>"
  have h: "\<forall>n. cvQueryFrame ?cv n = None" by simp
  show ?thesis using calibrate_without_frame_dereferences_null[OF h] h by simp
qed


end
